theory Spec2Isabelle
  imports Main "HOL-Library.Word"
begin

section \<open>Fusion::Octree: data model\<close>

text \<open>
  The embedding follows \<^verbatim>\<open>Octree.h\<close> and \<^verbatim>\<open>Octree.cpp\<close>.  The C++ \<^verbatim>\<open>int\<close>
  values that hold cell extents, voxel coordinates and intensities are \<^typ>\<open>int\<close>;
  layer numbers, grid coordinates and positions in a vector (loop counters that start
  at 0 and run up to a vector size, and products of such) are \<^typ>\<open>nat\<close>.
  Integer arithmetic is exact where the source's values stay within 32 bits by
  construction.  Two computations can leave that range and are written out: the voxel
  index that \<^verbatim>\<open>fill\<close> computes (\<open>read_voxel\<close>) and the counter
  \<^verbatim>\<open>m_voxelsInside\<close> (\<open>wrap32\<close>).
\<close>

definition INT_MAX :: int where
  "INT_MAX = 2147483647"

definition INT_MIN :: int where
  "INT_MIN = - 2147483648"

text \<open>\<open>int32 i\<close>: the value fits a C++ \<^verbatim>\<open>int\<close>.  \<open>wrap32 i\<close>: the value a 32-bit
  two's complement \<^verbatim>\<open>int\<close> holds for the exact result \<open>i\<close>.\<close>

definition int32 :: "int \<Rightarrow> bool" where
  "int32 i \<longleftrightarrow> INT_MIN \<le> i \<and> i \<le> INT_MAX"

definition wrap32 :: "int \<Rightarrow> int" where
  "wrap32 i = (i + 2147483648) mod 4294967296 - 2147483648"

text \<open>The operator \<^verbatim>\<open>/ 2\<close> on a C++ \<^verbatim>\<open>int\<close>: the quotient is truncated towards zero.\<close>

definition half :: "int \<Rightarrow> int" where
  "half a = (if 0 \<le> a then a div 2 else - ((- a) div 2))"

datatype ElementType = NODE | LEAF_IN | LEAF_OUT

record OctreeElement =
  min_e :: int
  max_e :: int
  type_e :: ElementType

text \<open>The default constructor of \<^verbatim>\<open>OctreeElement\<close>.\<close>

definition OctreeElement_new :: OctreeElement where
  "OctreeElement_new = \<lparr>min_e = INT_MAX, max_e = INT_MIN, type_e = NODE\<rparr>"

text \<open>
  Modelled from the spec: \<^verbatim>\<open>TypedImage.h\<close> (the classes \<^verbatim>\<open>MemImage\<close>, \<^verbatim>\<open>TypedImage<T>\<close>
  and the enumeration \<^verbatim>\<open>Image::USHORT\<close>, \<^verbatim>\<open>Image::UBYTE\<close>, ...) is not among the
  sources.  The spec and the note in \<^verbatim>\<open>Octree.h\<close> describe a volume of
  \<open>width \<times> height \<times> slices\<close> scalars of some element type, stored contiguously with x
  fastest, then y, then z.  A \<^verbatim>\<open>MemImage\<close> is one of the two element types that
  \<^verbatim>\<open>setImage\<close> dispatches on, or any other element type.
\<close>

record 'a TypedImage =
  width :: int
  height :: int
  slices :: int
  pointer :: "'a list"

datatype MemImage =
  UShortImage "16 word TypedImage"
  | UByteImage "8 word TypedImage"
  | OtherImage "unit TypedImage"

datatype ImageType = USHORT | UBYTE | OTHER

fun image_type :: "MemImage \<Rightarrow> ImageType" where
  "image_type (UShortImage i) = USHORT"
| "image_type (UByteImage i) = UBYTE"
| "image_type (OtherImage i) = OTHER"

fun image_width :: "MemImage \<Rightarrow> int" where
  "image_width (UShortImage i) = width i"
| "image_width (UByteImage i) = width i"
| "image_width (OtherImage i) = width i"

fun image_height :: "MemImage \<Rightarrow> int" where
  "image_height (UShortImage i) = height i"
| "image_height (UByteImage i) = height i"
| "image_height (OtherImage i) = height i"

fun image_slices :: "MemImage \<Rightarrow> int" where
  "image_slices (UShortImage i) = slices i"
| "image_slices (UByteImage i) = slices i"
| "image_slices (OtherImage i) = slices i"

text \<open>
  The fields of \<^verbatim>\<open>Octree\<close>.  \<^verbatim>\<open>m_scale\<close> (a \<^verbatim>\<open>double\<close>, read only by the
  \<^verbatim>\<open>setInsideRange(double, double)\<close> overload) and \<^verbatim>\<open>m_thread\<close> are left out.
  \<^verbatim>\<open>m_abortThread\<close> is written by another thread (the destructor): the functions that
  read it take the values they observe as a parameter.
\<close>

record Octree =
  m_minCubeSize :: int
  m_numLayers :: nat
  m_gridX :: "int list list"
  m_gridY :: "int list list"
  m_gridZ :: "int list list"
  m_data :: "OctreeElement list list"
  m_min :: int
  m_max :: int
  m_cubesInside :: "int list"
  m_voxelsInside :: int
  m_usable :: bool

text \<open>
  \<^verbatim>\<open>Octree::Octree(int minCubeSize)\<close>.  The constructor does not initialise
  \<^verbatim>\<open>m_numLayers\<close>; \<open>numLayers0\<close> is whatever the field holds.
\<close>

definition Octree_new :: "int \<Rightarrow> nat \<Rightarrow> Octree" where
  "Octree_new minCubeSize numLayers0 =
     \<lparr>m_minCubeSize = minCubeSize, m_numLayers = numLayers0,
      m_gridX = [], m_gridY = [], m_gridZ = [], m_data = [],
      m_min = INT_MIN, m_max = INT_MAX, m_cubesInside = [], m_voxelsInside = 0,
      m_usable = False\<rparr>"

definition isUsable :: "Octree \<Rightarrow> bool" where
  "isUsable t = m_usable t"

subsection \<open>createLayerGrid\<close>

text \<open>
  The inner \<^verbatim>\<open>for\<close> loop of \<^verbatim>\<open>createLayerGrid\<close>: every cell of the current layer
  pushes \<^verbatim>\<open>size / 2\<close> and \<^verbatim>\<open>size - size / 2\<close> onto the new layer, in order.
\<close>

definition newLayer :: "int list \<Rightarrow> int list" where
  "newLayer cells = concat (map (\<lambda>size. [half size, size - half size]) cells)"

text \<open>
  The \<^verbatim>\<open>while (cubeSizeHalf >= m_minCubeSize)\<close> loop.  It need not terminate, so it is a
  partial function: \<open>None\<close> is the loop that runs forever.  \<open>grid\<close> is the vector the
  caller passed by reference; the loop reads \<^verbatim>\<open>grid[layer]\<close> and appends.
\<close>

partial_function (option) createLayerGrid_loop ::
  "int \<Rightarrow> int \<Rightarrow> nat \<Rightarrow> int list list \<Rightarrow> (nat \<times> int list list) option" where
  "createLayerGrid_loop minCubeSize cubeSizeHalf layer grid =
     (if cubeSizeHalf \<ge> minCubeSize
      then createLayerGrid_loop minCubeSize (half cubeSizeHalf) (layer + 1)
             (grid @ [newLayer (grid ! layer)])
      else Some (layer + 1, grid))"

declare createLayerGrid_loop.simps [code]

definition createLayerGrid ::
  "int \<Rightarrow> int \<Rightarrow> int list list \<Rightarrow> (nat \<times> int list list) option" where
  "createLayerGrid minCubeSize dim grid =
     createLayerGrid_loop minCubeSize (half dim) 0 (grid @ [[dim]])"

subsection \<open>getSplit\<close>

definition getSplit :: "Octree \<Rightarrow> nat \<Rightarrow> nat \<times> nat \<times> nat" where
  "getSplit t layer =
     (length (m_gridX t ! (layer + 1)) div length (m_gridX t ! layer),
      length (m_gridY t ! (layer + 1)) div length (m_gridY t ! layer),
      length (m_gridZ t ! (layer + 1)) div length (m_gridZ t ! layer))"

subsection \<open>fill\<close>

text \<open>
  \<^verbatim>\<open>if (e.min > lo) e.min = lo; if (e.max < hi) e.max = hi;\<close>: the two statements
  that both loops of \<^verbatim>\<open>fill\<close> run on an element.
\<close>

definition update_min_max :: "int \<Rightarrow> int \<Rightarrow> OctreeElement \<Rightarrow> OctreeElement" where
  "update_min_max lo hi element =
     (let e1 = (if min_e element > lo then element\<lparr>min_e := lo\<rparr> else element)
      in if max_e e1 < hi then e1\<lparr>max_e := hi\<rparr> else e1)"

text \<open>
  \<^verbatim>\<open>(int)imgPtr[px + xx + image->width() * (py + yy + image->height() * (pz + zz))]\<close>:
  the index is computed in \<^verbatim>\<open>int\<close>, and the read is of an unsigned element of the buffer.
  \<open>None\<close> is undefined behaviour: a step of the index computation overflows, or the index
  lies outside the buffer.
\<close>

definition read_voxel ::
  "'a::len word TypedImage \<Rightarrow> int \<Rightarrow> int \<Rightarrow> int \<Rightarrow> int \<Rightarrow> int \<Rightarrow> int \<Rightarrow> int option" where
  "read_voxel img px py pz xx yy zz =
     (let a = pz + zz;
          b = height img * a;
          c = py + yy;
          d = c + b;
          e = width img * d;
          f = px + xx;
          i = f + e
      in if int32 a \<and> int32 b \<and> int32 c \<and> int32 d \<and> int32 e \<and> int32 f \<and> int32 i
            \<and> 0 \<le> i \<and> nat i < length (pointer img)
         then Some (uint (pointer img ! nat i)) else None)"

text \<open>
  The three innermost loops of the finest-layer scan (\<^verbatim>\<open>zz\<close>, \<^verbatim>\<open>yy\<close>, \<^verbatim>\<open>xx\<close>) over the
  voxels of one cell with origin \<open>(px, py, pz)\<close> and extents \<open>(sx, sy, sz)\<close>.  The state
  is the element, or \<open>None\<close> once a read was undefined.
\<close>

definition fill_cell ::
  "'a::len word TypedImage \<Rightarrow> int \<Rightarrow> int \<Rightarrow> int \<Rightarrow> int \<Rightarrow> int \<Rightarrow> int \<Rightarrow>
     OctreeElement \<Rightarrow> OctreeElement option" where
  "fill_cell img px py pz sx sy sz element =
     fold (\<lambda>zz. fold (\<lambda>yy. fold (\<lambda>xx st.
         case st of
           None \<Rightarrow> None
         | Some element' \<Rightarrow>
            (case read_voxel img px py pz (int xx) (int yy) (int zz) of
               None \<Rightarrow> None
             | Some value \<Rightarrow> Some (update_min_max value value element')))
       [0..<nat sx]) [0..<nat sy]) [0..<nat sz] (Some element)"

text \<open>The bodies of the \<^verbatim>\<open>x\<close>, \<^verbatim>\<open>y\<close> and \<^verbatim>\<open>z\<close> loops of the finest-layer scan.  The loop
  state is \<open>(elementPos, p, elements)\<close>: the running element position, the running
  voxel coordinate of the loop's axis and the element array of the finest layer; \<open>None\<close>
  once a read was undefined.\<close>

definition fill_x ::
  "'a::len word TypedImage \<Rightarrow> int list \<Rightarrow> int \<Rightarrow> int \<Rightarrow> int \<Rightarrow> int \<Rightarrow> nat \<Rightarrow>
     (nat \<times> int \<times> OctreeElement list) option \<Rightarrow> (nat \<times> int \<times> OctreeElement list) option" where
  "fill_x img lx sy sz py pz x = (\<lambda>st.
     case st of
       None \<Rightarrow> None
     | Some (elementPos, px, elements) \<Rightarrow>
        (case fill_cell img px py pz (lx ! x) sy sz (elements ! elementPos) of
           None \<Rightarrow> None
         | Some element \<Rightarrow> Some (elementPos + 1, px + lx ! x, elements[elementPos := element])))"

definition fill_y ::
  "'a::len word TypedImage \<Rightarrow> int list \<Rightarrow> int list \<Rightarrow> int \<Rightarrow> int \<Rightarrow> nat \<Rightarrow>
     (nat \<times> int \<times> OctreeElement list) option \<Rightarrow> (nat \<times> int \<times> OctreeElement list) option" where
  "fill_y img lx ly sz pz y = (\<lambda>st.
     case st of
       None \<Rightarrow> None
     | Some (elementPos, py, elements) \<Rightarrow>
        (case fold (fill_x img lx (ly ! y) sz py pz) [0..<length lx] (Some (elementPos, 0, elements)) of
           None \<Rightarrow> None
         | Some (elementPos', px, elements') \<Rightarrow> Some (elementPos', py + ly ! y, elements')))"

definition fill_z ::
  "'a::len word TypedImage \<Rightarrow> int list \<Rightarrow> int list \<Rightarrow> int list \<Rightarrow> nat \<Rightarrow>
     (nat \<times> int \<times> OctreeElement list) option \<Rightarrow> (nat \<times> int \<times> OctreeElement list) option" where
  "fill_z img lx ly lz z = (\<lambda>st.
     case st of
       None \<Rightarrow> None
     | Some (elementPos, pz, elements) \<Rightarrow>
        (case fold (fill_y img lx ly (lz ! z) pz) [0..<length ly] (Some (elementPos, 0, elements)) of
           None \<Rightarrow> None
         | Some (elementPos', py, elements') \<Rightarrow> Some (elementPos', pz + lz ! z, elements')))"

text \<open>
  A \<^verbatim>\<open>for (z ...)\<close> loop whose body starts with
  \<^verbatim>\<open>if (m_abortThread) throw ThreadAbortedException();\<close>.  \<open>abort k\<close> is the value of the
  flag at the \<open>k\<close>-th read that \<^verbatim>\<open>fill\<close> makes of it; \<open>reads\<close> counts the reads so far.
  \<open>Inl\<close> is the exception, with the state reached when it was thrown.
\<close>

datatype ThreadAbortedException = ThreadAbortedException

fun slices_loop ::
  "(nat \<Rightarrow> bool) \<Rightarrow> (nat \<Rightarrow> 's \<Rightarrow> 's) \<Rightarrow> nat list \<Rightarrow> nat \<times> 's \<Rightarrow> (nat \<times> 's) + (nat \<times> 's)" where
  "slices_loop abort body [] (reads, st) = Inr (reads, st)"
| "slices_loop abort body (z # zs) (reads, st) =
     (if abort reads then Inl (reads, st)
      else slices_loop abort body zs (reads + 1, body z st))"

text \<open>The three innermost loops of the propagation: one element of \<open>layer\<close> from its
  children in the element array \<open>down\<close> of \<open>layer + 1\<close>.\<close>

definition propagate_element ::
  "Octree \<Rightarrow> nat \<Rightarrow> nat \<Rightarrow> nat \<Rightarrow> nat \<Rightarrow> OctreeElement list \<Rightarrow> OctreeElement \<Rightarrow> OctreeElement" where
  "propagate_element t layer x y z down =
     (let nx = length (m_gridX t ! layer); ny = length (m_gridY t ! layer) in
      case getSplit t layer of (nxx, nyy, nzz) \<Rightarrow>
        fold (\<lambda>zz. fold (\<lambda>yy. fold (\<lambda>xx elementUp.
            let indexDown = nxx * x + xx + nx * nxx * (nyy * y + yy + ny * nyy * (nzz * z + zz));
                elementDown = down ! indexDown
            in update_min_max (min_e elementDown) (max_e elementDown) elementUp)
          [0..<nxx]) [0..<nyy]) [0..<nzz])"

definition propagate_x ::
  "Octree \<Rightarrow> nat \<Rightarrow> nat \<Rightarrow> nat \<Rightarrow> nat \<Rightarrow>
     nat \<times> OctreeElement list list \<Rightarrow> nat \<times> OctreeElement list list" where
  "propagate_x t layer y z x = (\<lambda>(elementPos, data).
     (elementPos + 1,
      data[layer := (data ! layer)[elementPos :=
         propagate_element t layer x y z (data ! (layer + 1)) (data ! layer ! elementPos)]]))"

definition propagate_y ::
  "Octree \<Rightarrow> nat \<Rightarrow> nat \<Rightarrow> nat \<Rightarrow>
     nat \<times> OctreeElement list list \<Rightarrow> nat \<times> OctreeElement list list" where
  "propagate_y t layer z y = fold (propagate_x t layer y z) [0..<length (m_gridX t ! layer)]"

definition propagate_z ::
  "Octree \<Rightarrow> nat \<Rightarrow> nat \<Rightarrow>
     nat \<times> OctreeElement list list \<Rightarrow> nat \<times> OctreeElement list list" where
  "propagate_z t layer z = fold (propagate_y t layer z) [0..<length (m_gridY t ! layer)]"

text \<open>The loop \<^verbatim>\<open>for (layer = m_numLayers - 2; layer >= 0; layer--)\<close>, over the list of
  its layers.\<close>

fun propagate_layers ::
  "(nat \<Rightarrow> bool) \<Rightarrow> Octree \<Rightarrow> nat list \<Rightarrow> nat \<times> OctreeElement list list \<Rightarrow>
     (nat \<times> OctreeElement list list) + (nat \<times> OctreeElement list list)" where
  "propagate_layers abort t [] (reads, data) = Inr (reads, data)"
| "propagate_layers abort t (layer # layers) (reads, data) =
     (case slices_loop abort (propagate_z t layer) [0..<length (m_gridZ t ! layer)]
             (reads, (0, data)) of
        Inl (reads', (elementPos, data')) \<Rightarrow> Inl (reads', data')
      | Inr (reads', (elementPos, data')) \<Rightarrow> propagate_layers abort t layers (reads', data'))"

text \<open>
  \<^verbatim>\<open>Octree::fill<T>\<close>, for an unsigned element type \<open>T\<close> of \<open>LENGTH('a)\<close> bits.  The
  result is \<open>Some (Inr t)\<close> when \<^verbatim>\<open>fill\<close> returns, \<open>Some (Inl (e, t))\<close> when it throws,
  with the tree as it was left, and \<open>None\<close> when a read of the image was undefined.  The
  source indexes its vectors unchecked; the model reads them with \<open>!\<close> and writes with list
  update.
\<close>

definition fill ::
  "'a::len word TypedImage \<Rightarrow> (nat \<Rightarrow> bool) \<Rightarrow> Octree \<Rightarrow>
     ((ThreadAbortedException \<times> Octree) + Octree) option" where
  "fill img abort t0 =
     (let t = t0\<lparr>m_usable := False\<rparr>;
          last = m_numLayers t - 1;
          lx = m_gridX t ! last;
          ly = m_gridY t ! last;
          lz = m_gridZ t ! last
      in case slices_loop abort (fill_z img lx ly lz) [0..<length lz]
                (0, Some (0, 0, m_data t ! last)) of
           Inl (reads, st) \<Rightarrow>
             (case st of
                None \<Rightarrow> None
              | Some (elementPos, pz, elements) \<Rightarrow>
                  Some (Inl (ThreadAbortedException, t\<lparr>m_data := (m_data t)[last := elements]\<rparr>)))
         | Inr (reads, st) \<Rightarrow>
             (case st of
                None \<Rightarrow> None
              | Some (elementPos, pz, elements) \<Rightarrow>
                 (case propagate_layers abort t (rev [0..<m_numLayers t - 1])
                         (reads, (m_data t)[last := elements]) of
                    Inl (reads', data) \<Rightarrow> Some (Inl (ThreadAbortedException, t\<lparr>m_data := data\<rparr>))
                  | Inr (reads', data) \<Rightarrow> Some (Inr (t\<lparr>m_data := data, m_usable := True\<rparr>)))))"

subsection \<open>setImage\<close>

text \<open>\<^verbatim>\<open>while (n < m_numLayers) { grid.push_back(grid[n - 1]); n++; }\<close>\<close>

function pad_grid :: "int list list \<Rightarrow> nat \<Rightarrow> nat \<Rightarrow> int list list \<times> nat" where
  "pad_grid grid n numLayers =
     (if n < numLayers then pad_grid (grid @ [grid ! (n - 1)]) (n + 1) numLayers
      else (grid, n))"
  by pat_completeness auto
termination
  by (relation "measure (\<lambda>(grid, n, numLayers). numLayers - n)") auto

text \<open>The body of the allocation loop; the loop state is \<open>(lx, ly, lz, m_data)\<close>.\<close>

definition allocate_layer ::
  "int list list \<Rightarrow> int list list \<Rightarrow> int list list \<Rightarrow> nat \<Rightarrow> nat \<Rightarrow> nat \<Rightarrow> nat \<Rightarrow>
     nat \<times> nat \<times> nat \<times> OctreeElement list list \<Rightarrow> nat \<times> nat \<times> nat \<times> OctreeElement list list" where
  "allocate_layer gridX gridY gridZ nx ny nz i = (\<lambda>(lx, ly, lz, data).
     let size = length (gridX ! lx) * length (gridY ! ly) * length (gridZ ! lz) in
       (if lx + 1 < nx then lx + 1 else lx,
        if ly + 1 < ny then ly + 1 else ly,
        if lz + 1 < nz then lz + 1 else lz,
        data @ [replicate size OctreeElement_new]))"

text \<open>
  \<^verbatim>\<open>Octree::setImage\<close>, in its two parts.  \<open>setImage_allocate\<close> is the method up to the
  \<^verbatim>\<open>try\<close> block: the three grids, \<^verbatim>\<open>m_numLayers\<close>, the padding and the allocation of the
  element arrays.  \<open>None\<close>: one of the three \<^verbatim>\<open>createLayerGrid\<close> calls does not return.
  \<open>setImage\<close> is also \<open>None\<close> when \<^verbatim>\<open>fill\<close> is.
\<close>

definition setImage_allocate :: "MemImage \<Rightarrow> Octree \<Rightarrow> Octree option" where
  "setImage_allocate img t0 =
     (case createLayerGrid (m_minCubeSize t0) (image_width img) (m_gridX t0) of
        None \<Rightarrow> None
      | Some (nx, gridX) \<Rightarrow>
     (case createLayerGrid (m_minCubeSize t0) (image_height img) (m_gridY t0) of
        None \<Rightarrow> None
      | Some (ny, gridY) \<Rightarrow>
     (case createLayerGrid (m_minCubeSize t0) (image_slices img) (m_gridZ t0) of
        None \<Rightarrow> None
      | Some (nz, gridZ) \<Rightarrow>
          let numLayers = max (max nx ny) nz in
          case pad_grid gridX nx numLayers of (gridX', nx') \<Rightarrow>
          case pad_grid gridY ny numLayers of (gridY', ny') \<Rightarrow>
          case pad_grid gridZ nz numLayers of (gridZ', nz') \<Rightarrow>
          case fold (allocate_layer gridX' gridY' gridZ' nx' ny' nz') [0..<numLayers]
                 (0, 0, 0, m_data t0) of (lx, ly, lz, data) \<Rightarrow>
            Some (t0\<lparr>m_usable := False, m_numLayers := numLayers, m_gridX := gridX',
                     m_gridY := gridY', m_gridZ := gridZ', m_data := data\<rparr>))))"

text \<open>
  The \<^verbatim>\<open>try\<close> block of \<^verbatim>\<open>setImage\<close> with its \<^verbatim>\<open>catch\<close> clause, which keeps the tree as
  \<^verbatim>\<open>fill\<close> left it.  An image that is neither \<^verbatim>\<open>USHORT\<close> nor \<^verbatim>\<open>UBYTE\<close> runs no \<^verbatim>\<open>fill\<close>
  and falls through to \<^verbatim>\<open>m_usable = true\<close>.
\<close>

definition setImage_try :: "MemImage \<Rightarrow> (nat \<Rightarrow> bool) \<Rightarrow> Octree \<Rightarrow> Octree option" where
  "setImage_try img abort t =
     (case img of
        UShortImage im \<Rightarrow>
          (case fill im abort t of
             None \<Rightarrow> None
           | Some (Inl (exn, t')) \<Rightarrow> Some t'
           | Some (Inr t') \<Rightarrow> Some (t'\<lparr>m_usable := True\<rparr>))
      | UByteImage im \<Rightarrow>
          (case fill im abort t of
             None \<Rightarrow> None
           | Some (Inl (exn, t')) \<Rightarrow> Some t'
           | Some (Inr t') \<Rightarrow> Some (t'\<lparr>m_usable := True\<rparr>))
      | OtherImage im \<Rightarrow> Some (t\<lparr>m_usable := True\<rparr>))"

definition setImage :: "MemImage \<Rightarrow> (nat \<Rightarrow> bool) \<Rightarrow> Octree \<Rightarrow> Octree option" where
  "setImage img abort t0 =
     (case setImage_allocate img t0 of
        None \<Rightarrow> None
      | Some t \<Rightarrow> setImage_try img abort t)"

text \<open>\<^verbatim>\<open>Octree::Octree(MemImage*, int)\<close>: the worker thread runs \<^verbatim>\<open>setImage\<close> on the
  newly constructed tree.\<close>

definition Octree_new_image :: "MemImage \<Rightarrow> int \<Rightarrow> nat \<Rightarrow> (nat \<Rightarrow> bool) \<Rightarrow> Octree option" where
  "Octree_new_image img minCubeSize numLayers0 abort =
     setImage img abort (Octree_new minCubeSize numLayers0)"

subsection \<open>setInsideRange and checkChildren\<close>

text \<open>
  \<^verbatim>\<open>checkChildren\<close> and \<^verbatim>\<open>enumerateChildren\<close> return \<open>None\<close> where the source would index
  a vector out of range or divide by zero (undefined behaviour).  The three predicates
  say which reads are in range.
\<close>

definition element_defined :: "Octree \<Rightarrow> OctreeElement list list \<Rightarrow> nat \<Rightarrow> nat \<Rightarrow> bool" where
  "element_defined t data layer pos \<longleftrightarrow>
     layer < length (m_gridX t) \<and> layer < length (m_gridY t) \<and>
     layer < length data \<and> pos < length (data ! layer)"

definition cell_defined :: "Octree \<Rightarrow> nat \<Rightarrow> nat \<Rightarrow> nat \<Rightarrow> nat \<Rightarrow> bool" where
  "cell_defined t layer px py pz \<longleftrightarrow>
     layer < length (m_gridX t) \<and> px < length (m_gridX t ! layer) \<and>
     layer < length (m_gridY t) \<and> py < length (m_gridY t ! layer) \<and>
     layer < length (m_gridZ t) \<and> pz < length (m_gridZ t ! layer)"

definition getSplit_defined :: "Octree \<Rightarrow> nat \<Rightarrow> bool" where
  "getSplit_defined t layer \<longleftrightarrow>
     layer + 1 < length (m_gridX t) \<and> m_gridX t ! layer \<noteq> [] \<and>
     layer + 1 < length (m_gridY t) \<and> m_gridY t ! layer \<noteq> [] \<and>
     layer + 1 < length (m_gridZ t) \<and> m_gridZ t ! layer \<noteq> []"

text \<open>\<^verbatim>\<open>m_data[layer][pos].type = ty\<close>\<close>

definition set_type ::
  "OctreeElement list list \<Rightarrow> nat \<Rightarrow> nat \<Rightarrow> ElementType \<Rightarrow> OctreeElement list list" where
  "set_type data layer pos ty =
     data[layer := (data ! layer)[pos := (data ! layer ! pos)\<lparr>type_e := ty\<rparr>]]"

text \<open>
  \<^verbatim>\<open>Octree::checkChildren\<close>.  The method reads the grids, \<^verbatim>\<open>m_numLayers\<close>, \<^verbatim>\<open>m_min\<close> and
  \<^verbatim>\<open>m_max\<close> of \<open>t\<close> and writes \<^verbatim>\<open>m_data\<close> and \<^verbatim>\<open>m_voxelsInside\<close>, which are threaded
  through as \<open>(data, voxelsInside)\<close>.  The state of the three child loops is
  \<open>(allIn, allOut, data, voxelsInside)\<close>.
\<close>

function checkChildren ::
  "Octree \<Rightarrow> nat \<Rightarrow> nat \<Rightarrow> nat \<Rightarrow> nat \<Rightarrow> OctreeElement list list \<times> int \<Rightarrow>
     (ElementType \<times> OctreeElement list list \<times> int) option" where
  "checkChildren t layer px py pz (data, voxelsInside) =
     (let nx = length (m_gridX t ! layer);
          ny = length (m_gridY t ! layer);
          pos = px + nx * (py + ny * pz)
      in
      if \<not> element_defined t data layer pos then None
      else if m_min t > max_e (data ! layer ! pos) \<or> m_max t < min_e (data ! layer ! pos) then
        Some (LEAF_OUT, set_type data layer pos LEAF_OUT, voxelsInside)
      else if layer + 1 = m_numLayers t then
        (if \<not> cell_defined t layer px py pz then None
         else Some (LEAF_IN, set_type data layer pos LEAF_IN,
                wrap32 (voxelsInside +
                  m_gridX t ! layer ! px * m_gridY t ! layer ! py * m_gridZ t ! layer ! pz)))
      else if \<not> getSplit_defined t layer then None
      else
        (case getSplit t layer of (nxx, nyy, nzz) \<Rightarrow>
         (case
           fold (\<lambda>zz. fold (\<lambda>yy. fold (\<lambda>xx st.
               case st of
                 None \<Rightarrow> None
               | Some (allIn, allOut, data', voxelsInside') \<Rightarrow>
                  (case checkChildren t (layer + 1) (nxx * px + xx) (nyy * py + yy) (nzz * pz + zz)
                          (data', voxelsInside') of
                     None \<Rightarrow> None
                   | Some (value, data'', voxelsInside'') \<Rightarrow>
                       if value = LEAF_IN then Some (allIn, False, data'', voxelsInside'')
                       else if value = LEAF_OUT then Some (False, allOut, data'', voxelsInside'')
                       else Some (False, False, data'', voxelsInside'')))
             [0..<nxx]) [0..<nyy]) [0..<nzz] (Some (True, True, data, voxelsInside))
         of
           None \<Rightarrow> None
         | Some (allIn, allOut, data', voxelsInside') \<Rightarrow>
             let ty = (if allIn then LEAF_IN else if allOut then LEAF_OUT else NODE)
             in Some (ty, set_type data' layer pos ty, voxelsInside'))))"
  by pat_completeness auto
termination
  by (relation "measure (\<lambda>(t, layer, px, py, pz, st). length (m_gridX t) - layer)")
     (auto simp: element_defined_def)

text \<open>\<^verbatim>\<open>Octree::setInsideRange(int, int)\<close>; the statistics it logs are left out.\<close>

definition setInsideRange :: "int \<Rightarrow> int \<Rightarrow> Octree \<Rightarrow> (bool \<times> Octree) option" where
  "setInsideRange min' max' t =
     (if m_min t = min' \<and> m_max t = max' then Some (False, t)
      else
        let t1 = t\<lparr>m_min := min', m_max := max', m_voxelsInside := 0\<rparr> in
        case checkChildren t1 0 0 0 0 (m_data t1, m_voxelsInside t1) of
          None \<Rightarrow> None
        | Some (ty, data, voxelsInside) \<Rightarrow>
            Some (True, t1\<lparr>m_data := data, m_voxelsInside := voxelsInside\<rparr>))"

subsection \<open>enumerate and enumerateChildren\<close>



declare checkChildren.simps [simp del]
declare pad_grid.simps [simp del]


subsection \<open>The fill with every read defined\<close>

text \<open>
  The loops of \<^verbatim>\<open>fill\<close> and \<^verbatim>\<open>setImage\<close> once more, with every voxel read at its exact
  index: what the loops above compute when they give a result.  The proofs work on these.
\<close>

definition fill_cell_exact ::
  "'a::len word TypedImage \<Rightarrow> int \<Rightarrow> int \<Rightarrow> int \<Rightarrow> int \<Rightarrow> int \<Rightarrow> int \<Rightarrow>
     OctreeElement \<Rightarrow> OctreeElement" where
  "fill_cell_exact img px py pz sx sy sz =
     fold (\<lambda>zz. fold (\<lambda>yy. fold (\<lambda>xx element.
         let value = uint (pointer img !
               nat (px + int xx + width img * (py + int yy + height img * (pz + int zz))))
         in update_min_max value value element)
       [0..<nat sx]) [0..<nat sy]) [0..<nat sz]"

definition fill_x_exact ::
  "'a::len word TypedImage \<Rightarrow> int list \<Rightarrow> int \<Rightarrow> int \<Rightarrow> int \<Rightarrow> int \<Rightarrow> nat \<Rightarrow>
     nat \<times> int \<times> OctreeElement list \<Rightarrow> nat \<times> int \<times> OctreeElement list" where
  "fill_x_exact img lx sy sz py pz x = (\<lambda>(elementPos, px, elements).
     (elementPos + 1, px + lx ! x,
      elements[elementPos := fill_cell_exact img px py pz (lx ! x) sy sz (elements ! elementPos)]))"

definition fill_y_exact ::
  "'a::len word TypedImage \<Rightarrow> int list \<Rightarrow> int list \<Rightarrow> int \<Rightarrow> int \<Rightarrow> nat \<Rightarrow>
     nat \<times> int \<times> OctreeElement list \<Rightarrow> nat \<times> int \<times> OctreeElement list" where
  "fill_y_exact img lx ly sz pz y = (\<lambda>(elementPos, py, elements).
     case fold (fill_x_exact img lx (ly ! y) sz py pz) [0..<length lx] (elementPos, 0, elements) of
       (elementPos', px, elements') \<Rightarrow> (elementPos', py + ly ! y, elements'))"

definition fill_z_exact ::
  "'a::len word TypedImage \<Rightarrow> int list \<Rightarrow> int list \<Rightarrow> int list \<Rightarrow> nat \<Rightarrow>
     nat \<times> int \<times> OctreeElement list \<Rightarrow> nat \<times> int \<times> OctreeElement list" where
  "fill_z_exact img lx ly lz z = (\<lambda>(elementPos, pz, elements).
     case fold (fill_y_exact img lx ly (lz ! z) pz) [0..<length ly] (elementPos, 0, elements) of
       (elementPos', py, elements') \<Rightarrow> (elementPos', pz + lz ! z, elements'))"

definition fill_exact ::
  "'a::len word TypedImage \<Rightarrow> (nat \<Rightarrow> bool) \<Rightarrow> Octree \<Rightarrow>
     (ThreadAbortedException \<times> Octree) + Octree" where
  "fill_exact img abort t0 =
     (let t = t0\<lparr>m_usable := False\<rparr>;
          last = m_numLayers t - 1;
          lx = m_gridX t ! last;
          ly = m_gridY t ! last;
          lz = m_gridZ t ! last
      in case slices_loop abort (fill_z_exact img lx ly lz) [0..<length lz]
                (0, (0, 0, m_data t ! last)) of
           Inl (reads, (elementPos, pz, elements)) \<Rightarrow>
             Inl (ThreadAbortedException, t\<lparr>m_data := (m_data t)[last := elements]\<rparr>)
         | Inr (reads, (elementPos, pz, elements)) \<Rightarrow>
             (case propagate_layers abort t (rev [0..<m_numLayers t - 1])
                     (reads, (m_data t)[last := elements]) of
                Inl (reads', data) \<Rightarrow> Inl (ThreadAbortedException, t\<lparr>m_data := data\<rparr>)
              | Inr (reads', data) \<Rightarrow> Inr (t\<lparr>m_data := data, m_usable := True\<rparr>)))"

definition setImage_try_exact :: "MemImage \<Rightarrow> (nat \<Rightarrow> bool) \<Rightarrow> Octree \<Rightarrow> Octree" where
  "setImage_try_exact img abort t =
     (case img of
        UShortImage im \<Rightarrow>
          (case fill_exact im abort t of
             Inl (exn, t') \<Rightarrow> t'
           | Inr t' \<Rightarrow> t'\<lparr>m_usable := True\<rparr>)
      | UByteImage im \<Rightarrow>
          (case fill_exact im abort t of
             Inl (exn, t') \<Rightarrow> t'
           | Inr t' \<Rightarrow> t'\<lparr>m_usable := True\<rparr>)
      | OtherImage im \<Rightarrow> t\<lparr>m_usable := True\<rparr>)"

definition setImage_exact :: "MemImage \<Rightarrow> (nat \<Rightarrow> bool) \<Rightarrow> Octree \<Rightarrow> Octree option" where
  "setImage_exact img abort t0 =
     (case setImage_allocate img t0 of
        None \<Rightarrow> None
      | Some t \<Rightarrow> Some (setImage_try_exact img abort t))"

section \<open>Notions used in the statements\<close>

text \<open>The number of depth slices over all layers: one \<^verbatim>\<open>z\<close> iteration of \<^verbatim>\<open>fill\<close> each.\<close>

definition depth_slices :: "Octree \<Rightarrow> nat" where
  "depth_slices t = (\<Sum>layer<m_numLayers t. length (m_gridZ t ! layer))"

text \<open>
  The work of the first \<open>k\<close> depth slices of \<^verbatim>\<open>fill\<close>, in the order of the source: the
  element arrays after the first \<open>k\<close> iterations of the \<^verbatim>\<open>z\<close> loops, the loop of the finest
  layer first, then the loop of each coarser layer from \<open>m_numLayers - 2\<close> down to 0.
  \<open>propagate_slices t layers k data\<close> runs the first \<open>k\<close> slices of the propagation over
  \<open>layers\<close>; \<open>fill_slices img t k\<close> is \<open>None\<close> when a read of these slices is undefined.
\<close>

fun propagate_slices ::
  "Octree \<Rightarrow> nat list \<Rightarrow> nat \<Rightarrow> OctreeElement list list \<Rightarrow> OctreeElement list list" where
  "propagate_slices t [] k data = data"
| "propagate_slices t (layer # layers) k data =
     propagate_slices t layers (k - length (m_gridZ t ! layer))
       (snd (fold (propagate_z t layer) [0..<min k (length (m_gridZ t ! layer))] (0, data)))"

definition fill_slices ::
  "'a::len word TypedImage \<Rightarrow> Octree \<Rightarrow> nat \<Rightarrow> OctreeElement list list option" where
  "fill_slices img t k =
     (let last = m_numLayers t - 1;
          lx = m_gridX t ! last;
          ly = m_gridY t ! last;
          lz = m_gridZ t ! last
      in case fold (fill_z img lx ly lz) [0..<min k (length lz)] (Some (0, 0, m_data t ! last)) of
           None \<Rightarrow> None
         | Some (elementPos, pz, elements) \<Rightarrow>
             Some (propagate_slices t (rev [0..<m_numLayers t - 1]) (k - length lz)
                     ((m_data t)[last := elements])))"

text \<open>
  An image whose buffer holds its \<open>width \<times> height \<times> slices\<close> voxels, with positive
  dimensions and a voxel count that an \<^verbatim>\<open>int\<close> holds.
\<close>

definition image_ok :: "'a TypedImage \<Rightarrow> bool" where
  "image_ok img \<longleftrightarrow>
     0 < width img \<and> 0 < height img \<and> 0 < slices img \<and>
     width img * height img * slices img \<le> INT_MAX \<and>
     length (pointer img) = nat (width img * height img * slices img)"

text \<open>
  Geometry.  \<open>origin cells i\<close> is the voxel coordinate at which cell \<open>i\<close> of a layer starts:
  the sum of the extents before it.  \<open>in_cell t layer px py pz v\<close>: the voxel \<open>v\<close> lies in
  the cell \<open>(px, py, pz)\<close> of \<open>layer\<close>.  \<open>voxel img v\<close> is the value the image stores for
  the voxel \<open>v\<close>, at the position that \<^verbatim>\<open>fill\<close> reads it from.
\<close>

definition origin :: "int list \<Rightarrow> nat \<Rightarrow> int" where
  "origin cells i = sum_list (take i cells)"

definition in_interval :: "int list \<Rightarrow> nat \<Rightarrow> int \<Rightarrow> bool" where
  "in_interval cells i v \<longleftrightarrow> origin cells i \<le> v \<and> v < origin cells i + cells ! i"

definition in_cell :: "Octree \<Rightarrow> nat \<Rightarrow> nat \<Rightarrow> nat \<Rightarrow> nat \<Rightarrow> int \<times> int \<times> int \<Rightarrow> bool" where
  "in_cell t layer px py pz v \<longleftrightarrow>
     (case v of (vx, vy, vz) \<Rightarrow>
        in_interval (m_gridX t ! layer) px vx \<and>
        in_interval (m_gridY t ! layer) py vy \<and>
        in_interval (m_gridZ t ! layer) pz vz)"

definition voxel :: "'a::len word TypedImage \<Rightarrow> int \<times> int \<times> int \<Rightarrow> int" where
  "voxel img v =
     (case v of (vx, vy, vz) \<Rightarrow>
        uint (pointer img ! nat (vx + width img * (vy + height img * vz))))"


text \<open>The element of the cell \<open>(px, py, pz)\<close> of \<open>layer\<close>, and the grid coordinates of the
  children of that cell in \<open>layer + 1\<close>, in the order in which the source visits them.\<close>

definition element_at :: "Octree \<Rightarrow> nat \<Rightarrow> nat \<Rightarrow> nat \<Rightarrow> nat \<Rightarrow> OctreeElement" where
  "element_at t layer px py pz =
     m_data t ! layer !
       (px + length (m_gridX t ! layer) * (py + length (m_gridY t ! layer) * pz))"

definition children :: "Octree \<Rightarrow> nat \<Rightarrow> nat \<Rightarrow> nat \<Rightarrow> nat \<Rightarrow> (nat \<times> nat \<times> nat) list" where
  "children t layer px py pz =
     (case getSplit t layer of (nxx, nyy, nzz) \<Rightarrow>
        concat (map (\<lambda>zz. concat (map (\<lambda>yy. map (\<lambda>xx.
            (nxx * px + xx, nyy * py + yy, nzz * pz + zz)) [0..<nxx]) [0..<nyy])) [0..<nzz]))"

text \<open>
  The shape of a tree that \<^verbatim>\<open>setImage\<close> has laid out for a volume of
  \<open>w \<times> h \<times> s\<close> voxels.  One axis: layer 0 is the whole extent, all extents are positive,
  and each later layer either splits every cell of the layer before it or repeats that
  layer.  The tree: the three axes have \<^verbatim>\<open>m_numLayers\<close> layers each, and each layer has one
  element per cell.
\<close>

definition axis_ok :: "int \<Rightarrow> int list list \<Rightarrow> bool" where
  "axis_ok dim g \<longleftrightarrow>
     g \<noteq> [] \<and> g ! 0 = [dim] \<and>
     (\<forall>k<length g. g ! k \<noteq> [] \<and> (\<forall>s\<in>set (g ! k). 0 < s)) \<and>
     (\<forall>k. k + 1 < length g \<longrightarrow> g ! (k + 1) = newLayer (g ! k) \<or> g ! (k + 1) = g ! k)"

definition tree_ok :: "int \<Rightarrow> int \<Rightarrow> int \<Rightarrow> Octree \<Rightarrow> bool" where
  "tree_ok w h s t \<longleftrightarrow>
     0 < m_numLayers t \<and>
     length (m_gridX t) = m_numLayers t \<and> axis_ok w (m_gridX t) \<and>
     length (m_gridY t) = m_numLayers t \<and> axis_ok h (m_gridY t) \<and>
     length (m_gridZ t) = m_numLayers t \<and> axis_ok s (m_gridZ t) \<and>
     length (m_data t) = m_numLayers t \<and>
     (\<forall>k<m_numLayers t. length (m_data t ! k) =
        length (m_gridX t ! k) * length (m_gridY t ! k) * length (m_gridZ t ! k))"

text \<open>
  The element of a cell summarises the cell for the voxel values \<open>val\<close>: its \<open>min\<close> is the
  least and its \<open>max\<close> the greatest value of a voxel of the cell.  \<open>voxels_of\<close> gives the
  voxel values of an image of a supported element type.
\<close>

definition summarised ::
  "(int \<times> int \<times> int \<Rightarrow> int) \<Rightarrow> Octree \<Rightarrow> nat \<Rightarrow> nat \<Rightarrow> nat \<Rightarrow> nat \<Rightarrow> bool" where
  "summarised val t layer px py pz \<longleftrightarrow>
     (\<forall>v. in_cell t layer px py pz v \<longrightarrow>
        min_e (element_at t layer px py pz) \<le> val v \<and> val v \<le> max_e (element_at t layer px py pz)) \<and>
     (\<exists>v. in_cell t layer px py pz v \<and> val v = min_e (element_at t layer px py pz)) \<and>
     (\<exists>v. in_cell t layer px py pz v \<and> val v = max_e (element_at t layer px py pz))"

text \<open>The element of a cell is aggregated from the elements of its children: its \<open>min\<close> is
  the least \<open>min\<close> and its \<open>max\<close> the greatest \<open>max\<close> of a child.\<close>

definition aggregated :: "Octree \<Rightarrow> nat \<Rightarrow> nat \<Rightarrow> nat \<Rightarrow> nat \<Rightarrow> bool" where
  "aggregated t layer px py pz \<longleftrightarrow>
     children t layer px py pz \<noteq> [] \<and>
     min_e (element_at t layer px py pz) =
       Min (set (map (\<lambda>(cx, cy, cz). min_e (element_at t (layer + 1) cx cy cz))
                  (children t layer px py pz))) \<and>
     max_e (element_at t layer px py pz) =
       Max (set (map (\<lambda>(cx, cy, cz). max_e (element_at t (layer + 1) cx cy cz))
                  (children t layer px py pz)))"

definition voxels_of :: "MemImage \<Rightarrow> (int \<times> int \<times> int \<Rightarrow> int) option" where
  "voxels_of img =
     (case img of
        UShortImage im \<Rightarrow> Some (voxel im)
      | UByteImage im \<Rightarrow> Some (voxel im)
      | OtherImage im \<Rightarrow> None)"

text \<open>
  Classification.  \<open>rejected t e\<close> is the test \<^verbatim>\<open>(m_min > element.max) || (m_max < element.min)\<close>
  of \<^verbatim>\<open>checkChildren\<close>; \<open>combine\<close> is the label of a node whose children have the given
  labels.  \<open>classify t k layer px py pz\<close> is the label of a cell with \<open>k\<close> layers below it,
  computed from the stored bounds alone.
\<close>

definition rejected :: "Octree \<Rightarrow> OctreeElement \<Rightarrow> bool" where
  "rejected t e \<longleftrightarrow> m_min t > max_e e \<or> m_max t < min_e e"

definition combine :: "ElementType list \<Rightarrow> ElementType" where
  "combine labels =
     (if \<forall>l\<in>set labels. l = LEAF_IN then LEAF_IN
      else if \<forall>l\<in>set labels. l = LEAF_OUT then LEAF_OUT
      else NODE)"

fun classify :: "Octree \<Rightarrow> nat \<Rightarrow> nat \<Rightarrow> nat \<Rightarrow> nat \<Rightarrow> nat \<Rightarrow> ElementType" where
  "classify t 0 layer px py pz =
     (if rejected t (element_at t layer px py pz) then LEAF_OUT else LEAF_IN)"
| "classify t (Suc k) layer px py pz =
     (if rejected t (element_at t layer px py pz) then LEAF_OUT
      else combine (map (\<lambda>(cx, cy, cz). classify t k (layer + 1) cx cy cz)
                     (children t layer px py pz)))"

text \<open>
  \<open>same_bounds data0 data\<close>: the element arrays \<open>data\<close> have the shape of \<open>data0\<close> and the same
  \<open>min\<close> and \<open>max\<close> everywhere.  \<open>relabelled t data data'\<close>: every cell has in \<open>data'\<close> the
  label it has in \<open>data\<close> or the label \<open>classify\<close> gives it.  \<open>classified t data k layer px py pz\<close>:
  the cell carries its label, and so do the cells below it down to the first that is
  not a \<open>NODE\<close>.
\<close>

definition same_bounds :: "OctreeElement list list \<Rightarrow> OctreeElement list list \<Rightarrow> bool" where
  "same_bounds data0 data \<longleftrightarrow>
     length data = length data0 \<and>
     (\<forall>layer<length data0. length (data ! layer) = length (data0 ! layer) \<and>
        (\<forall>j<length (data0 ! layer).
           min_e (data ! layer ! j) = min_e (data0 ! layer ! j) \<and>
           max_e (data ! layer ! j) = max_e (data0 ! layer ! j)))"

definition label_at :: "Octree \<Rightarrow> OctreeElement list list \<Rightarrow> nat \<Rightarrow> nat \<Rightarrow> nat \<Rightarrow> nat \<Rightarrow> ElementType" where
  "label_at t data layer px py pz =
     type_e (data ! layer !
       (px + length (m_gridX t ! layer) * (py + length (m_gridY t ! layer) * pz)))"

definition relabelled :: "Octree \<Rightarrow> OctreeElement list list \<Rightarrow> OctreeElement list list \<Rightarrow> bool" where
  "relabelled t data data' \<longleftrightarrow>
     (\<forall>layer px py pz. layer < m_numLayers t \<and> cell_defined t layer px py pz \<longrightarrow>
        label_at t data' layer px py pz = label_at t data layer px py pz \<or>
        label_at t data' layer px py pz = classify t (m_numLayers t - 1 - layer) layer px py pz)"

fun classified ::
  "Octree \<Rightarrow> OctreeElement list list \<Rightarrow> nat \<Rightarrow> nat \<Rightarrow> nat \<Rightarrow> nat \<Rightarrow> nat \<Rightarrow> bool" where
  "classified t data 0 layer px py pz \<longleftrightarrow>
     label_at t data layer px py pz = classify t 0 layer px py pz"
| "classified t data (Suc k) layer px py pz \<longleftrightarrow>
     label_at t data layer px py pz = classify t (Suc k) layer px py pz \<and>
     (classify t (Suc k) layer px py pz = NODE \<longrightarrow>
        (\<forall>c\<in>set (children t layer px py pz).
           classified t data k (layer + 1) (fst c) (fst (snd c)) (snd (snd c))))"

text \<open>
  \<open>visited t k layer px py pz c\<close>: the call of \<^verbatim>\<open>checkChildren\<close> on the cell
  \<open>(px, py, pz)\<close> of \<open>layer\<close>, \<open>k\<close> layers above the finest, visits the cell \<open>c\<close>: the cell
  itself and, unless it is rejected or at the finest layer, what the calls on its children
  visit.  \<open>labels_after t data k layer px py pz data'\<close>: in \<open>data'\<close> the visited cells carry
  the label that \<open>classify\<close> gives them and every other cell the label it has in \<open>data\<close>.
\<close>

fun visited :: "Octree \<Rightarrow> nat \<Rightarrow> nat \<Rightarrow> nat \<Rightarrow> nat \<Rightarrow> nat \<Rightarrow> nat \<times> nat \<times> nat \<times> nat \<Rightarrow> bool" where
  "visited t 0 layer px py pz c \<longleftrightarrow> c = (layer, px, py, pz)"
| "visited t (Suc k) layer px py pz c \<longleftrightarrow>
     c = (layer, px, py, pz) \<or>
     (\<not> rejected t (element_at t layer px py pz) \<and>
      (\<exists>ch\<in>set (children t layer px py pz).
         visited t k (layer + 1) (fst ch) (fst (snd ch)) (snd (snd ch)) c))"

definition labels_after ::
  "Octree \<Rightarrow> OctreeElement list list \<Rightarrow> nat \<Rightarrow> nat \<Rightarrow> nat \<Rightarrow> nat \<Rightarrow> nat \<Rightarrow>
     OctreeElement list list \<Rightarrow> bool" where
  "labels_after t data k layer px py pz data' \<longleftrightarrow>
     (\<forall>l a b c. l < m_numLayers t \<and> cell_defined t l a b c \<longrightarrow>
        label_at t data' l a b c =
          (if visited t k layer px py pz (l, a, b, c)
           then classify t (m_numLayers t - 1 - l) l a b c
           else label_at t data l a b c))"

text \<open>The three child loops of \<^verbatim>\<open>checkChildren\<close> as one loop over the children.\<close>

definition check_step ::
  "Octree \<Rightarrow> nat \<Rightarrow> nat \<times> nat \<times> nat \<Rightarrow>
     (bool \<times> bool \<times> OctreeElement list list \<times> int) option \<Rightarrow>
     (bool \<times> bool \<times> OctreeElement list list \<times> int) option" where
  "check_step t layer c = (\<lambda>st.
     case st of
        None \<Rightarrow> None
      | Some (allIn, allOut, data', voxelsInside') \<Rightarrow>
          (case checkChildren t layer (fst c) (fst (snd c)) (snd (snd c)) (data', voxelsInside') of
             None \<Rightarrow> None
           | Some (value, data'', voxelsInside'') \<Rightarrow>
               if value = LEAF_IN then Some (allIn, False, data'', voxelsInside'')
               else if value = LEAF_OUT then Some (False, allOut, data'', voxelsInside'')
               else Some (False, False, data'', voxelsInside'')))"

text \<open>One layer of the propagation.\<close>

definition propagate_layer :: "Octree \<Rightarrow> nat \<Rightarrow> OctreeElement list list \<Rightarrow> OctreeElement list list" where
  "propagate_layer t layer data =
     snd (fold (propagate_z t layer) [0..<length (m_gridZ t ! layer)] (0, data))"

text \<open>The depth slices of a list of layers.\<close>

definition layer_slices :: "Octree \<Rightarrow> nat list \<Rightarrow> nat" where
  "layer_slices t layers = sum_list (map (\<lambda>layer. length (m_gridZ t ! layer)) layers)"


text \<open>
  Enumeration.  \<^verbatim>\<open>enumerate\<close> returns six integers per box: the voxel position of its
  corner and its extents.  \<open>boxes_of\<close> reads such a list, \<open>box_ints\<close> writes one box,
  \<open>in_box b v\<close> says that the voxel \<open>v\<close> lies in the box \<open>b\<close>, and \<open>cell_box\<close> is the box
  of a cell.  \<open>emitted t k layer px py pz\<close> lists the cells below a cell, \<open>k\<close> layers above
  the finest, that are labelled \<open>LEAF_IN\<close> with no ancestor so labelled, in the order of
  the walk of \<^verbatim>\<open>enumerateChildren\<close>.  \<open>finest_hit t v\<close>: the voxel lies in a cell of the
  finest layer whose bounds pass the range test.  \<open>enumerate_step\<close> is the body of the three
  child loops of \<^verbatim>\<open>enumerateChildren\<close> as one loop over the children.
\<close>

type_synonym box = "int \<times> int \<times> int \<times> int \<times> int \<times> int"



definition cell_box :: "Octree \<Rightarrow> nat \<times> nat \<times> nat \<times> nat \<Rightarrow> box" where
  "cell_box t c =
     (case c of (layer, px, py, pz) \<Rightarrow>
        (origin (m_gridX t ! layer) px, origin (m_gridY t ! layer) py, origin (m_gridZ t ! layer) pz,
         m_gridX t ! layer ! px, m_gridY t ! layer ! py, m_gridZ t ! layer ! pz))"





text \<open>The abort flag of a run in which nobody sets it.\<close>

definition no_abort :: "nat \<Rightarrow> bool" where
  "no_abort k = False"

text \<open>A volume of two voxels, \<open>2 \<times> 1 \<times> 1\<close>, with the values 0 and 100, and a volume of three
  voxels, \<open>3 \<times> 1 \<times> 1\<close>, with the values 0, 0 and 100: the inputs of the examples.\<close>

definition volume2 :: "16 word TypedImage" where
  "volume2 = \<lparr>width = 2, height = 1, slices = 1, pointer = [0, 100]\<rparr>"


text \<open>The tree of \<open>volume2\<close> with minimum cube size 1 as \<^verbatim>\<open>setImage\<close> has allocated it, and
  as it is left when the second read of the abort flag sees it set.\<close>

definition tree2_allocated :: Octree where
  "tree2_allocated =
     \<lparr>m_minCubeSize = 1, m_numLayers = 2, m_gridX = [[2], [1, 1]],
      m_gridY = [[1], [1]], m_gridZ = [[1], [1]],
      m_data = [[OctreeElement_new], [OctreeElement_new, OctreeElement_new]],
      m_min = INT_MIN, m_max = INT_MAX, m_cubesInside = [],
      m_voxelsInside = 0, m_usable = False\<rparr>"

definition tree2_aborted :: Octree where
  "tree2_aborted =
     \<lparr>m_minCubeSize = 1, m_numLayers = 2, m_gridX = [[2], [1, 1]],
      m_gridY = [[1], [1]], m_gridZ = [[1], [1]],
      m_data = [[OctreeElement_new],
                [\<lparr>min_e = 0, max_e = 0, type_e = NODE\<rparr>,
                 \<lparr>min_e = 100, max_e = 100, type_e = NODE\<rparr>]],
      m_min = INT_MIN, m_max = INT_MAX, m_cubesInside = [],
      m_voxelsInside = 0, m_usable = False\<rparr>"

text \<open>The same tree after \<^verbatim>\<open>setImage\<close> has completed.\<close>

definition tree2_filled :: Octree where
  "tree2_filled =
     \<lparr>m_minCubeSize = 1, m_numLayers = 2, m_gridX = [[2], [1, 1]],
      m_gridY = [[1], [1]], m_gridZ = [[1], [1]],
      m_data = [[\<lparr>min_e = 0, max_e = 100, type_e = NODE\<rparr>],
                [\<lparr>min_e = 0, max_e = 0, type_e = NODE\<rparr>,
                 \<lparr>min_e = 100, max_e = 100, type_e = NODE\<rparr>]],
      m_min = INT_MIN, m_max = INT_MAX, m_cubesInside = [],
      m_voxelsInside = 0, m_usable = True\<rparr>"










section \<open>The layer grid\<close>

lemma half_nonneg: "0 \<le> a \<Longrightarrow> half a = a div 2"
  by (simp add: half_def)

lemma half_less: "1 \<le> a \<Longrightarrow> half a < a \<and> 0 \<le> half a"
  by (simp add: half_def)

lemma sum_list_newLayer: "sum_list (newLayer cells) = sum_list cells"
  by (induction cells) (simp_all add: newLayer_def)

lemma length_newLayer: "length (newLayer cells) = 2 * length cells"
  by (induction cells) (simp_all add: newLayer_def)

lemma newLayer_lower:
  "0 \<le> c \<Longrightarrow> \<forall>s\<in>set cells. 2 * c \<le> s \<Longrightarrow> \<forall>s\<in>set (newLayer cells). c \<le> s"
  by (induction cells) (auto simp: newLayer_def half_def)

lemma newLayer_floor:
  "\<forall>s\<in>set cells. 0 \<le> s \<Longrightarrow> newLayer cells = concat (map (\<lambda>s. [s div 2, s - s div 2]) cells)"
  by (induction cells) (auto simp: newLayer_def half_def)

lemma createLayerGrid_loop_result:
  "1 \<le> m \<Longrightarrow> length grid = layer + 1 \<Longrightarrow>
    \<exists>n g'. createLayerGrid_loop m c layer grid = Some (n, g') \<and> n = length g' \<and> layer + 1 \<le> n
       \<and> take (layer + 1) g' = grid
       \<and> (\<forall>k. layer \<le> k \<and> k + 1 < n \<longrightarrow> g' ! (k + 1) = newLayer (g' ! k))"
proof (induction "nat c" arbitrary: c layer grid rule: less_induct)
  case less
  show ?case
  proof (cases "m \<le> c")
    case False
    then show ?thesis using less.prems
      by (subst createLayerGrid_loop.simps) auto
  next
    case True
    let ?g = "grid @ [newLayer (grid ! layer)]"
    have "nat (half c) < nat c" using True less.prems(1) half_less[of c] by linarith
    moreover have "length ?g = (layer + 1) + 1" using less.prems by simp
    ultimately obtain n g' where r: "createLayerGrid_loop m (half c) (layer + 1) ?g = Some (n, g')"
      "n = length g'" "layer + 1 + 1 \<le> n" "take (layer + 1 + 1) g' = ?g"
      "\<forall>k. layer + 1 \<le> k \<and> k + 1 < n \<longrightarrow> g' ! (k + 1) = newLayer (g' ! k)"
      using less.hyps[of "half c" ?g "layer + 1"] less.prems(1) by blast
    have t: "take (layer + 1) g' = grid"
    proof -
      have "take (layer + 1) (take (layer + 1 + 1) g') = take (layer + 1) ?g" using r(4) by simp
      then show ?thesis using less.prems(2) by (simp add: min_def)
    qed
    have a: "g' ! layer = grid ! layer"
    proof -
      have "g' ! layer = take (layer + 1) g' ! layer" by simp
      also have "\<dots> = grid ! layer" by (simp only: t)
      finally show ?thesis .
    qed
    have b: "g' ! (layer + 1) = newLayer (grid ! layer)"
    proof -
      have "g' ! (layer + 1) = take (layer + 1 + 1) g' ! (layer + 1)" by simp
      also have "\<dots> = ?g ! (layer + 1)" by (simp only: r(4))
      finally show ?thesis using less.prems(2) by (simp add: nth_append)
    qed
    have c: "\<forall>k. layer \<le> k \<and> k + 1 < n \<longrightarrow> g' ! (k + 1) = newLayer (g' ! k)"
    proof (intro allI impI)
      fix k assume k: "layer \<le> k \<and> k + 1 < n"
      show "g' ! (k + 1) = newLayer (g' ! k)"
      proof (cases "k = layer")
        case True then show ?thesis using a b by simp
      next
        case False then show ?thesis using k r(5) by simp
      qed
    qed
    have "createLayerGrid_loop m c layer grid = Some (n, g')"
      using True r(1) by (subst createLayerGrid_loop.simps) simp
    then show ?thesis using r(2,3) t c by simp
  qed
qed

lemma createLayerGrid_loop_cells:
  "1 \<le> m \<Longrightarrow> length grid = layer + 1 \<Longrightarrow> 0 \<le> c \<Longrightarrow> \<forall>s\<in>set (grid ! layer). 2 * c \<le> s \<Longrightarrow>
   createLayerGrid_loop m c layer grid = Some (n, g') \<Longrightarrow>
   layer \<le> k \<Longrightarrow> k + 1 < n \<Longrightarrow> \<forall>s\<in>set (g' ! (k + 1)). m \<le> s"
proof (induction "nat c" arbitrary: c layer grid rule: less_induct)
  case less
  show ?case
  proof (cases "m \<le> c")
    case False
    then show ?thesis using less.prems
      by (subst (asm) createLayerGrid_loop.simps) auto
  next
    case True
    let ?g = "grid @ [newLayer (grid ! layer)]"
    have lt: "nat (half c) < nat c" using True less.prems(1) half_less[of c] by linarith
    have len: "length ?g = (layer + 1) + 1" using less.prems by simp
    have hc: "0 \<le> half c" using less.prems(3) by (simp add: half_def)
    have nl: "?g ! (layer + 1) = newLayer (grid ! layer)" using less.prems(2) by (simp add: nth_append)
    have low: "\<forall>s\<in>set (?g ! (layer + 1)). c \<le> s"
      unfolding nl using newLayer_lower[OF less.prems(3,4)] .
    have low2: "\<forall>s\<in>set (?g ! (layer + 1)). 2 * half c \<le> s"
    proof
      fix s assume "s \<in> set (?g ! (layer + 1))"
      then have "c \<le> s" using low by blast
      moreover have "2 * half c \<le> c" using less.prems(3) by (simp add: half_def)
      ultimately show "2 * half c \<le> s" by linarith
    qed
    have run: "createLayerGrid_loop m (half c) (layer + 1) ?g = Some (n, g')"
      using True less.prems(5) by (subst (asm) createLayerGrid_loop.simps) simp
    show ?thesis
    proof (cases "k = layer")
      case False
      then have "layer + 1 \<le> k" using less.prems(6) by simp
      from less.hyps[OF lt less.prems(1) len hc low2 run this less.prems(7)] show ?thesis .
    next
      case True
      obtain n2 g2 where r: "createLayerGrid_loop m (half c) (layer + 1) ?g = Some (n2, g2)"
        "take (layer + 1 + 1) g2 = ?g"
        using createLayerGrid_loop_result[OF less.prems(1) len, of "half c"] by blast
      with run have g2: "g2 = g'" by simp
      have "g' ! (layer + 1) = take (layer + 1 + 1) g' ! (layer + 1)" by simp
      also have "\<dots> = ?g ! (layer + 1)" using r(2) g2 by simp
      finally have "g' ! (layer + 1) = ?g ! (layer + 1)" .
      then show ?thesis using low \<open>m \<le> c\<close> True by fastforce
    qed
  qed
qed

lemma createLayerGrid_loop_diverges:
  assumes "createLayerGrid_loop m c layer grid = Some r"
  shows "\<not> (m \<le> 0 \<and> m \<le> c)"
proof (rule createLayerGrid_loop.raw_induct
    [where P = "\<lambda>m c layer grid r. \<not> (m \<le> 0 \<and> m \<le> c)", OF _ assms])
  fix f :: "int \<Rightarrow> int \<Rightarrow> nat \<Rightarrow> int list list \<Rightarrow> (nat \<times> int list list) option"
  fix m c :: int and layer :: nat and grid :: "int list list" and r
  assume IH: "\<And>m c layer grid r. f m c layer grid = Some r \<Longrightarrow> \<not> (m \<le> 0 \<and> m \<le> c)"
    and step: "(if m \<le> c then f m (half c) (layer + 1) (grid @ [newLayer (grid ! layer)])
                else Some (layer + 1, grid)) = Some r"
  show "\<not> (m \<le> 0 \<and> m \<le> c)"
  proof
    assume a: "m \<le> 0 \<and> m \<le> c"
    then have h: "m \<le> half c" by (auto simp: half_def)
    from a step have "f m (half c) (layer + 1) (grid @ [newLayer (grid ! layer)]) = Some r"
      by simp
    from IH[OF this] a h show False by simp
  qed
qed

lemma createLayerGrid_empty:
  assumes "0 < dim" and "0 < m"
  shows "\<exists>n g. createLayerGrid m dim [] = Some (n, g) \<and> length g = n \<and> 0 < n \<and> g ! 0 = [dim]
      \<and> (\<forall>k<n. sum_list (g ! k) = dim \<and> (\<forall>s\<in>set (g ! k). 0 < s) \<and> length (g ! k) = 2 ^ k)
      \<and> (\<forall>k. k + 1 < n \<longrightarrow> g ! (k + 1) = newLayer (g ! k)
            \<and> g ! (k + 1) = concat (map (\<lambda>s. [s div 2, s - s div 2]) (g ! k)))"
proof -
  have m1: "1 \<le> m" using assms by simp
  obtain n g where r: "createLayerGrid_loop m (half dim) 0 [[dim]] = Some (n, g)"
    "n = length g" "0 + 1 \<le> n" "take (0 + 1) g = [[dim]]"
    "\<forall>k. 0 \<le> k \<and> k + 1 < n \<longrightarrow> g ! (k + 1) = newLayer (g ! k)"
    using createLayerGrid_loop_result[OF m1, of "[[dim]]" 0 "half dim"] by auto
  have g0: "g ! 0 = [dim]"
  proof -
    have "g ! 0 = take (0 + 1) g ! 0" by simp
    also have "\<dots> = [dim]" by (simp only: r(4)) simp
    finally show ?thesis .
  qed
  have hd: "0 \<le> half dim" "2 * half dim \<le> dim" using assms(1) by (simp_all add: half_def)
  have cells: "\<forall>s\<in>set (g ! (k + 1)). m \<le> s" if "k + 1 < n" for k
    using createLayerGrid_loop_cells[OF m1 _ hd(1) _ r(1) _ that, of ] hd(2) by simp
  have pos: "\<forall>s\<in>set (g ! k). 0 < s" if "k < n" for k
  proof (cases k)
    case 0 then show ?thesis using g0 assms(1) by simp
  next
    case (Suc j) then show ?thesis using cells[of j] that assms(2) by fastforce
  qed
  have step: "g ! (k + 1) = newLayer (g ! k)" if "k + 1 < n" for k using r(5) that by simp
  have sums: "sum_list (g ! k) = dim \<and> length (g ! k) = 2 ^ k" if "k < n" for k
    using that
  proof (induction k)
    case 0 then show ?case using g0 by simp
  next
    case (Suc k) then show ?case using step[of k] by (simp add: sum_list_newLayer length_newLayer)
  qed
  have fl: "g ! (k + 1) = concat (map (\<lambda>s. [s div 2, s - s div 2]) (g ! k))" if "k + 1 < n" for k
  proof -
    have "\<forall>s\<in>set (g ! k). 0 \<le> s" using pos[of k] that by fastforce
    from newLayer_floor[OF this] step[OF that] show ?thesis by simp
  qed
  have "createLayerGrid m dim [] = Some (n, g)" using r(1) by (simp add: createLayerGrid_def)
  then show ?thesis using r(2,3) g0 pos sums fl step by auto
qed




lemma createLayerGrid_loop_terminates:
  "1 \<le> m \<Longrightarrow> \<exists>r. createLayerGrid_loop m c layer grid = Some r"
proof (induction "nat c" arbitrary: c layer grid rule: less_induct)
  case less
  show ?case
  proof (cases "m \<le> c")
    case False
    then show ?thesis by (subst createLayerGrid_loop.simps) simp
  next
    case True
    have "nat (half c) < nat c" using True less.prems half_less[of c] by linarith
    from less.hyps[OF this less.prems] True show ?thesis
      by (subst createLayerGrid_loop.simps) simp
  qed
qed

text \<open>
  Claim C10.  With a minimum cube size of at least 1, \<^verbatim>\<open>createLayerGrid\<close> returns for every
  dimension and every grid.  With a minimum cube size of 0 or less it returns only when
  the first test of the loop already fails (\<open>half dim < minCubeSize\<close>, which needs a
  negative dimension); for every dimension from 0 on, the counter stays at or above
  the minimum cube size and the loop never ends.
\<close>

theorem createLayerGrid_terminates:
  "(1 \<le> m \<longrightarrow> (\<exists>r. createLayerGrid m dim grid = Some r))
   \<and> (m \<le> 0 \<longrightarrow> (createLayerGrid m dim grid = None) = (m \<le> half dim))
   \<and> (m \<le> 0 \<and> 0 \<le> dim \<longrightarrow> createLayerGrid m dim grid = None)"
proof -
  have a: "\<exists>r. createLayerGrid m dim grid = Some r" if "1 \<le> m"
    using createLayerGrid_loop_terminates[OF that] by (simp add: createLayerGrid_def)
  have b: "createLayerGrid m dim grid = None" if "m \<le> 0" "m \<le> half dim"
  proof (rule ccontr)
    assume "createLayerGrid m dim grid \<noteq> None"
    then obtain r where "createLayerGrid_loop m (half dim) 0 (grid @ [[dim]]) = Some r"
      by (auto simp: createLayerGrid_def)
    from createLayerGrid_loop_diverges[OF this] that show False by simp
  qed
  have c: "createLayerGrid m dim grid \<noteq> None" if "\<not> m \<le> half dim"
    using that by (simp add: createLayerGrid_def createLayerGrid_loop.simps)
  have d: "0 \<le> half dim" if "0 \<le> dim" using that by (simp add: half_def)
  show ?thesis using a b c d by fastforce
qed

theorem createLayerGrid_terminates_witness:
  "(\<exists>r. createLayerGrid 1 8 [] = Some r) \<and> createLayerGrid 0 8 [] = None
    \<and> createLayerGrid (- 1) (- 5) [] \<noteq> None"
  using createLayerGrid_terminates[of 1 8 "[]"] createLayerGrid_terminates[of 0 8 "[]"]
    createLayerGrid_terminates[of "- 1" "- 5" "[]"]
  by (simp add: half_def)

section \<open>Cancellation of fill_exact\<close>

lemma slices_loop_no_abort:
  "\<forall>k. reads \<le> k \<and> k < reads + length zs \<longrightarrow> \<not> abort k \<Longrightarrow>
   slices_loop abort body zs (reads, st) = Inr (reads + length zs, fold body zs st)"
  by (induction zs arbitrary: reads st) auto

lemma slices_loop_abort:
  "\<exists>k. reads \<le> k \<and> k < reads + length zs \<and> abort k \<Longrightarrow>
   \<exists>r s. slices_loop abort body zs (reads, st) = Inl (r, s)"
proof (induction zs arbitrary: reads st)
  case Nil then show ?case by auto
next
  case (Cons z zs)
  show ?case
  proof (cases "abort reads")
    case True then show ?thesis by simp
  next
    case False
    from Cons.prems obtain k where k: "reads \<le> k" "k < reads + length (z # zs)" "abort k" by blast
    with False have "k \<noteq> reads" by blast
    with k have "\<exists>k. reads + 1 \<le> k \<and> k < (reads + 1) + length zs \<and> abort k"
      by (intro exI[of _ k]) simp
    from Cons.IH[OF this] False show ?thesis by simp
  qed
qed

lemma propagate_layers_no_abort:
  "\<forall>k. reads \<le> k \<and> k < reads + layer_slices t layers \<longrightarrow> \<not> abort k \<Longrightarrow>
   \<exists>data'. propagate_layers abort t layers (reads, data) = Inr (reads + layer_slices t layers, data')"
proof (induction layers arbitrary: reads data)
  case Nil then show ?case by (simp add: layer_slices_def)
next
  case (Cons layer layers)
  let ?n = "length (m_gridZ t ! layer)"
  have ls: "layer_slices t (layer # layers) = ?n + layer_slices t layers" by (simp add: layer_slices_def)
  have a: "\<forall>k. reads \<le> k \<and> k < reads + length [0..<?n] \<longrightarrow> \<not> abort k"
    using Cons.prems ls by simp
  have b: "\<forall>k. reads + ?n \<le> k \<and> k < reads + ?n + layer_slices t layers \<longrightarrow> \<not> abort k"
    using Cons.prems ls by simp
  obtain p d where f: "fold (propagate_z t layer) [0..<?n] (0, data) = (p, d)" by fastforce
  from Cons.IH[OF b, of d] obtain data' where
    "propagate_layers abort t layers (reads + ?n, d) = Inr (reads + ?n + layer_slices t layers, data')" by blast
  then show ?case using slices_loop_no_abort[OF a, of "propagate_z t layer" "(0, data)"] f ls
    by (simp add: add.assoc)
qed

lemma propagate_layers_abort:
  "\<exists>k. reads \<le> k \<and> k < reads + layer_slices t layers \<and> abort k \<Longrightarrow>
   \<exists>r data'. propagate_layers abort t layers (reads, data) = Inl (r, data')"
proof (induction layers arbitrary: reads data)
  case Nil then show ?case by (auto simp add: layer_slices_def)
next
  case (Cons layer layers)
  let ?n = "length (m_gridZ t ! layer)"
  have ls: "layer_slices t (layer # layers) = ?n + layer_slices t layers" by (simp add: layer_slices_def)
  show ?case
  proof (cases "\<exists>k. reads \<le> k \<and> k < reads + length [0..<?n] \<and> abort k")
    case True
    from slices_loop_abort[OF this, of "propagate_z t layer" "(0, data)"] show ?thesis
      by auto
  next
    case False
    then have a: "\<forall>k. reads \<le> k \<and> k < reads + length [0..<?n] \<longrightarrow> \<not> abort k" by blast
    from Cons.prems obtain k where k: "reads \<le> k" "k < reads + layer_slices t (layer # layers)" "abort k"
      by blast
    with a have "reads + ?n \<le> k" by (metis length_upt diff_zero not_le_imp_less)
    with k ls have b: "\<exists>k. reads + ?n \<le> k \<and> k < reads + ?n + layer_slices t layers \<and> abort k"
      by (intro exI[of _ k]) simp
    obtain p d where f: "fold (propagate_z t layer) [0..<?n] (0, data) = (p, d)" by fastforce
    from Cons.IH[OF b, of d] show ?thesis
      using slices_loop_no_abort[OF a, of "propagate_z t layer" "(0, data)"] f by simp
  qed
qed

lemma depth_slices_split:
  assumes "0 < m_numLayers t"
  shows "depth_slices t = length (m_gridZ t ! (m_numLayers t - 1)) + layer_slices t (rev [0..<m_numLayers t - 1])"
proof -
  obtain n where n: "m_numLayers t = Suc n" using assms by (cases "m_numLayers t") auto
  have "layer_slices t (rev [0..<n]) = (\<Sum>layer<n. length (m_gridZ t ! layer))"
    unfolding layer_slices_def
    by (simp add: rev_map[symmetric] sum_list_rev interv_sum_list_conv_sum_set_nat atLeast0LessThan)
  then show ?thesis using n by (simp add: depth_slices_def)
qed

lemma createLayerGrid_loop_count:
  assumes "createLayerGrid_loop m c layer grid = Some r"
  shows "layer < fst r"
proof (rule createLayerGrid_loop.raw_induct
    [where P = "\<lambda>m c layer grid r. layer < fst r", OF _ assms])
  fix f :: "int \<Rightarrow> int \<Rightarrow> nat \<Rightarrow> int list list \<Rightarrow> (nat \<times> int list list) option"
  fix m c :: int and layer :: nat and grid :: "int list list" and r
  assume IH: "\<And>m c layer grid r. f m c layer grid = Some r \<Longrightarrow> layer < fst r"
    and step: "(if m \<le> c then f m (half c) (layer + 1) (grid @ [newLayer (grid ! layer)])
                else Some (layer + 1, grid)) = Some r"
  show "layer < fst r"
  proof (cases "m \<le> c")
    case True
    with step have "f m (half c) (layer + 1) (grid @ [newLayer (grid ! layer)]) = Some r" by simp
    from IH[OF this] show ?thesis by simp
  next
    case False
    with step show ?thesis by auto
  qed
qed

lemma createLayerGrid_count: "createLayerGrid m dim grid = Some (n, g) \<Longrightarrow> 0 < n"
  using createLayerGrid_loop_count[of m "half dim" 0 "grid @ [[dim]]" "(n, g)"]
  by (simp add: createLayerGrid_def)

lemma setImage_allocate_numLayers:
  "setImage_allocate img t0 = Some t \<Longrightarrow> 0 < m_numLayers t \<and> \<not> m_usable t"
  by (auto simp: setImage_allocate_def Let_def split: option.splits prod.splits
      dest!: createLayerGrid_count)

lemma fill_aborted:
  assumes "0 < m_numLayers t" and "\<exists>k<depth_slices t. abort k"
  shows "\<exists>t'. fill_exact img abort t = Inl (ThreadAbortedException, t') \<and> \<not> m_usable t'
     \<and> m_numLayers t' = m_numLayers t \<and> m_gridZ t' = m_gridZ t"
proof -
  let ?t = "t\<lparr>m_usable := False\<rparr>"
  let ?last = "m_numLayers t - 1"
  let ?lz = "m_gridZ t ! ?last"
  let ?layers = "rev [0..<m_numLayers t - 1]"
  have ds: "depth_slices t = length ?lz + layer_slices ?t ?layers"
    using depth_slices_split[OF assms(1)] by (simp add: layer_slices_def)
  show ?thesis
  proof (cases "\<exists>k. 0 \<le> k \<and> k < 0 + length [0..<length ?lz] \<and> abort k")
    case True
    from slices_loop_abort[OF this, of "fill_z_exact img (m_gridX t ! ?last) (m_gridY t ! ?last) ?lz"
        "(0, 0, m_data t ! ?last)"]
    obtain r s where "slices_loop abort (fill_z_exact img (m_gridX t ! ?last) (m_gridY t ! ?last) ?lz)
        [0..<length ?lz] (0, (0, 0, m_data t ! ?last)) = Inl (r, s)" by blast
    then show ?thesis
      by (cases s) (simp add: fill_exact_def Let_def split: prod.splits)
  next
    case False
    then have a: "\<forall>k. 0 \<le> k \<and> k < 0 + length [0..<length ?lz] \<longrightarrow> \<not> abort k" by blast
    from assms(2) obtain k where k: "k < depth_slices t" "abort k" by blast
    with a have "length ?lz \<le> k" by (metis add_0 length_upt diff_zero not_le_imp_less le0)
    with k ds have b: "\<exists>k. length ?lz \<le> k \<and> k < length ?lz + layer_slices ?t ?layers \<and> abort k"
      by (intro exI[of _ k]) simp
    note s1 = slices_loop_no_abort[OF a, of "fill_z_exact img (m_gridX t ! ?last) (m_gridY t ! ?last) ?lz"
        "(0, 0, m_data t ! ?last)"]
    obtain pos pz elements where f: "fold (fill_z_exact img (m_gridX t ! ?last) (m_gridY t ! ?last) ?lz)
        [0..<length ?lz] (0, 0, m_data t ! ?last) = (pos, pz, elements)"
      using prod_cases3 by blast
    from propagate_layers_abort[OF b, of "(m_data t)[?last := elements]"]
    obtain r d where "propagate_layers abort ?t ?layers (length ?lz, (m_data t)[?last := elements]) = Inl (r, d)"
      by blast
    then show ?thesis using s1 f
      by (simp add: fill_exact_def Let_def)
  qed
qed

lemma fill_completed:
  assumes "0 < m_numLayers t" and "\<forall>k<depth_slices t. \<not> abort k"
  shows "\<exists>t'. fill_exact img abort t = Inr t' \<and> m_usable t'
     \<and> m_numLayers t' = m_numLayers t \<and> m_gridZ t' = m_gridZ t"
proof -
  let ?t = "t\<lparr>m_usable := False\<rparr>"
  let ?last = "m_numLayers t - 1"
  let ?lz = "m_gridZ t ! ?last"
  let ?layers = "rev [0..<m_numLayers t - 1]"
  have ds: "depth_slices t = length ?lz + layer_slices ?t ?layers"
    using depth_slices_split[OF assms(1)] by (simp add: layer_slices_def)
  have a: "\<forall>k. 0 \<le> k \<and> k < 0 + length [0..<length ?lz] \<longrightarrow> \<not> abort k"
    using assms(2) ds by simp
  have b: "\<forall>k. length ?lz \<le> k \<and> k < length ?lz + layer_slices ?t ?layers \<longrightarrow> \<not> abort k"
    using assms(2) ds by simp
  note s1 = slices_loop_no_abort[OF a, of "fill_z_exact img (m_gridX t ! ?last) (m_gridY t ! ?last) ?lz"
      "(0, 0, m_data t ! ?last)"]
  obtain pos pz elements where f: "fold (fill_z_exact img (m_gridX t ! ?last) (m_gridY t ! ?last) ?lz)
      [0..<length ?lz] (0, 0, m_data t ! ?last) = (pos, pz, elements)"
    using prod_cases3 by blast
  from propagate_layers_no_abort[OF b, of "(m_data t)[?last := elements]"]
  obtain d where "propagate_layers abort ?t ?layers (length ?lz, (m_data t)[?last := elements])
      = Inr (length ?lz + layer_slices ?t ?layers, d)"
    by blast
  then show ?thesis using s1 f
    by (simp add: fill_exact_def Let_def)
qed

lemma setImage_try_usable:
  assumes "0 < m_numLayers t" and "image_type img \<noteq> OTHER"
  shows "m_usable (setImage_try_exact img abort t) = (\<forall>k<depth_slices t. \<not> abort k)
     \<and> depth_slices (setImage_try_exact img abort t) = depth_slices t"
proof (cases "\<forall>k<depth_slices t. \<not> abort k")
  case True
  show ?thesis
  proof (cases img)
    case (UShortImage im)
    from fill_completed[OF assms(1) True, of im] show ?thesis
      using True UShortImage by (auto simp: setImage_try_exact_def depth_slices_def)
  next
    case (UByteImage im)
    from fill_completed[OF assms(1) True, of im] show ?thesis
      using True UByteImage by (auto simp: setImage_try_exact_def depth_slices_def)
  next
    case (OtherImage im) then show ?thesis using assms(2) by simp
  qed
next
  case False
  then have ex: "\<exists>k<depth_slices t. abort k" by blast
  show ?thesis
  proof (cases img)
    case (UShortImage im)
    from fill_aborted[OF assms(1) ex, of im] show ?thesis
      using False UShortImage by (auto simp: setImage_try_exact_def depth_slices_def)
  next
    case (UByteImage im)
    from fill_aborted[OF assms(1) ex, of im] show ?thesis
      using False UByteImage by (auto simp: setImage_try_exact_def depth_slices_def)
  next
    case (OtherImage im) then show ?thesis using assms(2) by simp
  qed
qed

section \<open>The tree that setImage lays out\<close>

lemma createLayerGrid_axis_ok:
  assumes "0 < dim" and "0 < m"
  shows "\<exists>n g. createLayerGrid m dim [] = Some (n, g) \<and> length g = n \<and> 0 < n \<and> axis_ok dim g"
proof -
  from createLayerGrid_empty[OF assms] obtain n g where r:
    "createLayerGrid m dim [] = Some (n, g)" "length g = n" "0 < n" "g ! 0 = [dim]"
    "\<forall>k<n. sum_list (g ! k) = dim \<and> (\<forall>s\<in>set (g ! k). 0 < s) \<and> length (g ! k) = 2 ^ k"
    "\<forall>k. k + 1 < n \<longrightarrow> g ! (k + 1) = newLayer (g ! k)
            \<and> g ! (k + 1) = concat (map (\<lambda>s. [s div 2, s - s div 2]) (g ! k))"
    by blast
  have ne: "g ! k \<noteq> []" if "k < n" for k
  proof -
    have "length (g ! k) = 2 ^ k" using r(5) that by blast
    then show ?thesis by auto
  qed
  have "axis_ok dim g"
    unfolding axis_ok_def using r ne by auto
  with r show ?thesis by blast
qed

lemma pad_grid_result:
  "length g = n \<Longrightarrow> 0 < n \<Longrightarrow> pad_grid g n N = (g @ replicate (N - n) (last g), max n N)"
proof (induction g n N rule: pad_grid.induct)
  case (1 grid n numLayers)
  show ?case
  proof (cases "n < numLayers")
    case False
    then show ?thesis by (subst pad_grid.simps) (simp add: max_def)
  next
    case True
    have "grid \<noteq> []" using 1(2,3) by auto
    from last_conv_nth[OF this] have l: "grid ! (n - 1) = last grid" using 1(2) by simp
    have "pad_grid (grid @ [grid ! (n - 1)]) (n + 1) numLayers
        = ((grid @ [grid ! (n - 1)]) @ replicate (numLayers - (n + 1)) (last (grid @ [grid ! (n - 1)])),
           max (n + 1) numLayers)"
      using 1(1)[OF True] 1(2) by simp
    also have "\<dots> = (grid @ replicate (numLayers - n) (last grid), max n numLayers)"
    proof -
      have "numLayers - n = Suc (numLayers - (n + 1))" using True by simp
      then show ?thesis using True l by (simp add: max_def)
    qed
    finally show ?thesis using True by (subst pad_grid.simps) simp
  qed
qed

lemma axis_ok_pad:
  assumes "axis_ok dim g"
  shows "axis_ok dim (g @ replicate k (last g))"
proof -
  let ?g = "g @ replicate k (last g)"
  have ne: "g \<noteq> []" using assms by (simp add: axis_ok_def)
  have nth: "?g ! i = (if i < length g then g ! i else last g)" if "i < length ?g" for i
    using that by (simp add: nth_append)
  have lastg: "last g = g ! (length g - 1)" using ne by (simp add: last_conv_nth)
  have a: "?g ! 0 = [dim]" using assms ne by (simp add: axis_ok_def nth_append)
  have b: "?g ! i \<noteq> [] \<and> (\<forall>s\<in>set (?g ! i). 0 < s)" if "i < length ?g" for i
  proof (cases "i < length g")
    case True then show ?thesis using assms nth[OF that] by (simp add: axis_ok_def)
  next
    case False
    have "length g - 1 < length g" using ne by simp
    then have "g ! (length g - 1) \<noteq> [] \<and> (\<forall>s\<in>set (g ! (length g - 1)). 0 < s)"
      using assms unfolding axis_ok_def by blast
    then show ?thesis using False nth[OF that] lastg by simp
  qed
  have c: "?g ! (i + 1) = newLayer (?g ! i) \<or> ?g ! (i + 1) = ?g ! i" if "i + 1 < length ?g" for i
  proof (cases "i + 1 < length g")
    case True
    then show ?thesis using assms by (simp add: axis_ok_def nth_append)
  next
    case False
    have "?g ! (i + 1) = last g" using nth[OF that] False by simp
    moreover have "?g ! i = last g"
    proof (cases "i < length g")
      case True
      with False have "i = length g - 1" by simp
      then show ?thesis using True lastg by (simp add: nth_append)
    next
      case False then show ?thesis using that by (simp add: nth_append)
    qed
    ultimately show ?thesis by simp
  qed
  show ?thesis unfolding axis_ok_def using a b c ne by simp
qed

lemma allocate_fold:
  assumes "i \<le> N"
  shows "fold (allocate_layer gX gY gZ N N N) [0..<i] (0, 0, 0, data0) =
     (min i (N - 1), min i (N - 1), min i (N - 1),
      data0 @ map (\<lambda>k. replicate (length (gX ! k) * length (gY ! k) * length (gZ ! k)) OctreeElement_new) [0..<i])"
  using assms
proof (induction i)
  case 0 then show ?case by simp
next
  case (Suc i)
  then have m: "min i (N - 1) = i" by simp
  have m2: "min (Suc i) (N - 1) = (if Suc i < N then Suc i else i)" using Suc.prems by auto
  have ih: "fold (allocate_layer gX gY gZ N N N) [0..<i] (0, 0, 0, data0) =
     (i, i, i,
      data0 @ map (\<lambda>k. replicate (length (gX ! k) * length (gY ! k) * length (gZ ! k)) OctreeElement_new) [0..<i])"
    using Suc m by simp
  have st: "fold (allocate_layer gX gY gZ N N N) [0..<Suc i] (0, 0, 0, data0) =
     allocate_layer gX gY gZ N N N i (fold (allocate_layer gX gY gZ N N N) [0..<i] (0, 0, 0, data0))"
    by simp
  show ?case unfolding st ih m2 by (simp add: allocate_layer_def)
qed

lemma setImage_allocate_shape:
  assumes "0 < image_width img" and "0 < image_height img" and "0 < image_slices img" and "0 < m"
  shows "\<exists>t. setImage_allocate img (Octree_new m n0) = Some t
     \<and> tree_ok (image_width img) (image_height img) (image_slices img) t
     \<and> (\<forall>l\<in>set (m_data t). \<forall>e\<in>set l. e = OctreeElement_new)
     \<and> m_min t = INT_MIN \<and> m_max t = INT_MAX \<and> m_minCubeSize t = m"
proof -
  from createLayerGrid_axis_ok[OF assms(1,4)] obtain nx gx where
    x: "createLayerGrid m (image_width img) [] = Some (nx, gx)" "length gx = nx" "0 < nx"
      "axis_ok (image_width img) gx" by blast
  from createLayerGrid_axis_ok[OF assms(2,4)] obtain ny gy where
    y: "createLayerGrid m (image_height img) [] = Some (ny, gy)" "length gy = ny" "0 < ny"
      "axis_ok (image_height img) gy" by blast
  from createLayerGrid_axis_ok[OF assms(3,4)] obtain nz gz where
    z: "createLayerGrid m (image_slices img) [] = Some (nz, gz)" "length gz = nz" "0 < nz"
      "axis_ok (image_slices img) gz" by blast
  define N where "N = max (max nx ny) nz"
  define gx' where "gx' = gx @ replicate (N - nx) (last gx)"
  define gy' where "gy' = gy @ replicate (N - ny) (last gy)"
  define gz' where "gz' = gz @ replicate (N - nz) (last gz)"
  have px: "pad_grid gx nx N = (gx', N)" using pad_grid_result[OF x(2,3), of N]
    by (simp add: gx'_def N_def)
  have py: "pad_grid gy ny N = (gy', N)" using pad_grid_result[OF y(2,3), of N]
    by (simp add: gy'_def N_def)
  have pz: "pad_grid gz nz N = (gz', N)" using pad_grid_result[OF z(2,3), of N]
    by (simp add: gz'_def N_def)
  have lens: "length gx' = N" "length gy' = N" "length gz' = N"
    using x(2) y(2) z(2) by (simp_all add: gx'_def gy'_def gz'_def N_def)
  have oks: "axis_ok (image_width img) gx'" "axis_ok (image_height img) gy'"
    "axis_ok (image_slices img) gz'"
    using axis_ok_pad x(4) y(4) z(4) by (simp_all add: gx'_def gy'_def gz'_def)
  define data where "data = map (\<lambda>k. replicate (length (gx' ! k) * length (gy' ! k) * length (gz' ! k))
      OctreeElement_new) [0..<N]"
  have al: "fold (allocate_layer gx' gy' gz' N N N) [0..<N] (0, 0, 0, []) =
     (min N (N - 1), min N (N - 1), min N (N - 1), data)"
    using allocate_fold[of N N gx' gy' gz' "[]"] by (simp add: data_def)
  define t where "t = (Octree_new m n0)\<lparr>m_usable := False, m_numLayers := N, m_gridX := gx',
                     m_gridY := gy', m_gridZ := gz', m_data := data\<rparr>"
  have r: "setImage_allocate img (Octree_new m n0) = Some t"
    unfolding setImage_allocate_def
    using x(1) y(1) z(1) px py pz al
    by (simp add: Octree_new_def N_def[symmetric] t_def)
  have N0: "0 < N" using x(3) by (simp add: N_def)
  have ok: "tree_ok (image_width img) (image_height img) (image_slices img) t"
    unfolding tree_ok_def using lens oks N0 by (simp add: t_def data_def)
  have new: "\<forall>l\<in>set (m_data t). \<forall>e\<in>set l. e = OctreeElement_new"
    by (auto simp: t_def data_def)
  show ?thesis using r ok new by (simp add: t_def Octree_new_def)
qed

section \<open>Loops over element arrays\<close>

lemma fold_product:
  "fold (\<lambda>a. fold (f a) ys) xs = fold (\<lambda>(a, b). f a b) (List.product xs ys)"
  by (induction xs) (simp_all add: fold_map comp_def)

lemma fold_product3:
  "fold (\<lambda>z. fold (\<lambda>y. fold (f z y) xs) ys) zs =
   fold (\<lambda>(z, y, x). f z y x) (List.product zs (List.product ys xs))"
proof -
  have "fold (\<lambda>z. fold (\<lambda>y. fold (f z y) xs) ys) zs =
      fold (\<lambda>z. fold (\<lambda>(y, x). f z y x) (List.product ys xs)) zs"
    by (simp add: fold_product)
  also have "\<dots> = fold (\<lambda>(z, y, x). f z y x) (List.product zs (List.product ys xs))"
    using fold_product[of "\<lambda>z (y, x). f z y x" "List.product ys xs" zs]
    by (simp add: case_prod_unfold)
  finally show ?thesis .
qed

lemma seq_write:
  "pos + length as \<le> length els \<Longrightarrow>
   \<exists>els'. fold (\<lambda>a (pos, els). (pos + 1, els[pos := F a (els ! pos)])) as (pos, els) = (pos + length as, els')
     \<and> length els' = length els
     \<and> (\<forall>j<length els. els' ! j =
          (if pos \<le> j \<and> j < pos + length as then F (as ! (j - pos)) (els ! j) else els ! j))"
proof (induction as arbitrary: pos els)
  case Nil then show ?case by auto
next
  case (Cons a as)
  let ?els1 = "els[pos := F a (els ! pos)]"
  have "pos + 1 + length as \<le> length ?els1" using Cons.prems by simp
  from Cons.IH[OF this] obtain els' where r:
    "fold (\<lambda>a (pos, els). (pos + 1, els[pos := F a (els ! pos)])) as (pos + 1, ?els1) = (pos + 1 + length as, els')"
    "length els' = length ?els1"
    "\<forall>j<length ?els1. els' ! j =
          (if pos + 1 \<le> j \<and> j < pos + 1 + length as then F (as ! (j - (pos + 1))) (?els1 ! j) else ?els1 ! j)"
    by blast
  have "\<forall>j<length els. els' ! j =
          (if pos \<le> j \<and> j < pos + length (a # as) then F ((a # as) ! (j - pos)) (els ! j) else els ! j)"
  proof (intro allI impI)
    fix j assume j: "j < length els"
    show "els' ! j = (if pos \<le> j \<and> j < pos + length (a # as) then F ((a # as) ! (j - pos)) (els ! j) else els ! j)"
    proof (cases "j = pos")
      case True then show ?thesis using r(3) j by simp
    next
      case False
      have "(a # as) ! (j - pos) = as ! (j - (pos + 1))" if "pos \<le> j"
      proof -
        have "j - pos = Suc (j - (pos + 1))" using that False by simp
        then show ?thesis by simp
      qed
      then show ?thesis using r(3) j False by auto
    qed
  qed
  then show ?case using r(1,2) by simp
qed

lemma fold_offset:
  assumes "\<And>i pos p els. body i (pos, p, els) =
      (case body' i p (pos, els) of (pos', els') \<Rightarrow> (pos', p + ext ! i, els'))"
    and "n \<le> length ext"
  shows "fold body [0..<n] (pos, start, els) =
     (case fold (\<lambda>i. body' i (start + origin ext i)) [0..<n] (pos, els) of
        (pos', els') \<Rightarrow> (pos', start + origin ext n, els'))"
  using assms(2)
proof (induction n)
  case 0 then show ?case by (simp add: origin_def)
next
  case (Suc n)
  have o: "origin ext (Suc n) = origin ext n + ext ! n"
    using Suc.prems by (simp add: origin_def take_Suc_conv_app_nth)
  obtain pos' els' where f: "fold (\<lambda>i. body' i (start + origin ext i)) [0..<n] (pos, els) = (pos', els')"
    by fastforce
  have "fold body [0..<n] (pos, start, els) = (pos', start + origin ext n, els')"
    using Suc f by simp
  then show ?case using f o by (simp add: assms(1) split: prod.splits)
qed

lemma fold_lift:
  assumes "\<And>i pos d. layer < length d \<Longrightarrow> body i (pos, d) =
      (case body' i (d ! (layer + 1)) (pos, d ! layer) of (pos', els') \<Rightarrow> (pos', d[layer := els']))"
    and "layer < length data"
  shows "fold body xs (pos, data) =
     (case fold (\<lambda>i. body' i (data ! (layer + 1))) xs (pos, data ! layer) of
        (pos', els') \<Rightarrow> (pos', data[layer := els']))"
  using assms(2)
proof (induction xs arbitrary: pos data)
  case Nil then show ?case by simp
next
  case (Cons x xs)
  obtain pos1 els1 where b: "body' x (data ! (layer + 1)) (pos, data ! layer) = (pos1, els1)"
    by fastforce
  let ?d1 = "data[layer := els1]"
  have l: "layer < length ?d1" using Cons.prems by simp
  have d1: "?d1 ! (layer + 1) = data ! (layer + 1)" "?d1 ! layer = els1"
    using Cons.prems by simp_all
  have "fold body (x # xs) (pos, data) = fold body xs (pos1, ?d1)"
    using b by (simp add: assms(1)[OF Cons.prems])
  also have "\<dots> = (case fold (\<lambda>i. body' i (data ! (layer + 1))) xs (pos1, els1) of
        (pos', els') \<Rightarrow> (pos', ?d1[layer := els']))"
    using Cons.IH[OF l, of pos1] d1 by simp
  finally show ?case using b by (simp split: prod.splits)
qed

section \<open>The finest layer\<close>

lemma update_min_max_fields:
  "min_e (update_min_max lo hi e) = min (min_e e) lo"
  "max_e (update_min_max lo hi e) = max (max_e e) hi"
  "type_e (update_min_max lo hi e) = type_e e"
  by (simp_all add: update_min_max_def Let_def)

lemma fold_update_type:
  "type_e (fold (\<lambda>a. update_min_max (lo a) (hi a)) as e) = type_e e"
  by (induction as arbitrary: e) (simp_all add: update_min_max_fields)

lemma fold_update_min_le:
  "min_e (fold (\<lambda>a. update_min_max (lo a) (hi a)) as e) \<le> min_e e
   \<and> (\<forall>a\<in>set as. min_e (fold (\<lambda>a. update_min_max (lo a) (hi a)) as e) \<le> lo a)"
proof (induction as arbitrary: e)
  case Nil then show ?case by simp
next
  case (Cons a as)
  from Cons[of "update_min_max (lo a) (hi a) e"] show ?case
    by (auto simp: update_min_max_fields)
qed

lemma fold_update_max_ge:
  "max_e e \<le> max_e (fold (\<lambda>a. update_min_max (lo a) (hi a)) as e)
   \<and> (\<forall>a\<in>set as. hi a \<le> max_e (fold (\<lambda>a. update_min_max (lo a) (hi a)) as e))"
proof (induction as arbitrary: e)
  case Nil then show ?case by simp
next
  case (Cons a as)
  from Cons[of "update_min_max (lo a) (hi a) e"] show ?case
    by (auto simp: update_min_max_fields)
qed

lemma fold_update_min_attained:
  "min_e (fold (\<lambda>a. update_min_max (lo a) (hi a)) as e) = min_e e
   \<or> (\<exists>a\<in>set as. min_e (fold (\<lambda>a. update_min_max (lo a) (hi a)) as e) = lo a)"
proof (induction as arbitrary: e)
  case Nil then show ?case by simp
next
  case (Cons a as)
  from Cons[of "update_min_max (lo a) (hi a) e"] show ?case
    by (auto simp: update_min_max_fields min_def split: if_splits)
qed

lemma fold_update_max_attained:
  "max_e (fold (\<lambda>a. update_min_max (lo a) (hi a)) as e) = max_e e
   \<or> (\<exists>a\<in>set as. max_e (fold (\<lambda>a. update_min_max (lo a) (hi a)) as e) = hi a)"
proof (induction as arbitrary: e)
  case Nil then show ?case by simp
next
  case (Cons a as)
  from Cons[of "update_min_max (lo a) (hi a) e"] show ?case
    by (auto simp: update_min_max_fields max_def split: if_splits)
qed

text \<open>The voxel scan of one cell as a single loop over the offsets \<open>(zz, yy, xx)\<close>.\<close>

lemma fill_cell_flat:
  "fill_cell_exact img px py pz sx sy sz =
   fold (\<lambda>a. update_min_max
           (voxel img (px + int (snd (snd a)), py + int (fst (snd a)), pz + int (fst a)))
           (voxel img (px + int (snd (snd a)), py + int (fst (snd a)), pz + int (fst a))))
     (List.product [0..<nat sz] (List.product [0..<nat sy] [0..<nat sx]))"
  unfolding fill_cell_exact_def Let_def fold_product3
  by (simp add: voxel_def case_prod_unfold)

lemma fill_cell_type: "type_e (fill_cell_exact img px py pz sx sy sz e) = type_e e"
  unfolding fill_cell_flat by (rule fold_update_type)

lemma fill_cell_bounds:
  assumes "px \<le> vx" "vx < px + sx" "py \<le> vy" "vy < py + sy" "pz \<le> vz" "vz < pz + sz"
  shows "min_e (fill_cell_exact img px py pz sx sy sz e) \<le> voxel img (vx, vy, vz)
     \<and> voxel img (vx, vy, vz) \<le> max_e (fill_cell_exact img px py pz sx sy sz e)"
proof -
  let ?a = "(nat (vz - pz), nat (vy - py), nat (vx - px))"
  have m: "?a \<in> set (List.product [0..<nat sz] (List.product [0..<nat sy] [0..<nat sx]))"
    using assms by auto
  have v: "(px + int (snd (snd ?a)), py + int (fst (snd ?a)), pz + int (fst ?a)) = (vx, vy, vz)"
    using assms by simp
  let ?as = "List.product [0..<nat sz] (List.product [0..<nat sy] [0..<nat sx])"
  let ?v = "\<lambda>a. voxel img (px + int (snd (snd a)), py + int (fst (snd a)), pz + int (fst a))"
  have "min_e (fold (\<lambda>a. update_min_max (?v a) (?v a)) ?as e) \<le> ?v ?a"
    using fold_update_min_le[of ?v ?v ?as e] m by blast
  moreover have "?v ?a \<le> max_e (fold (\<lambda>a. update_min_max (?v a) (?v a)) ?as e)"
    using fold_update_max_ge[of e ?v ?v ?as] m by blast
  ultimately show ?thesis
    unfolding fill_cell_flat v by simp
qed

lemma fill_cell_le_initial:
  "min_e (fill_cell_exact img px py pz sx sy sz e) \<le> min_e e
   \<and> max_e e \<le> max_e (fill_cell_exact img px py pz sx sy sz e)"
proof -
  let ?as = "List.product [0..<nat sz] (List.product [0..<nat sy] [0..<nat sx])"
  let ?v = "\<lambda>a. voxel img (px + int (snd (snd a)), py + int (fst (snd a)), pz + int (fst a))"
  show ?thesis
    unfolding fill_cell_flat
    using fold_update_min_le[of ?v ?v ?as e] fold_update_max_ge[of e ?v ?v ?as] by blast
qed

lemma fill_cell_min_attained:
  "min_e (fill_cell_exact img px py pz sx sy sz e) = min_e e
   \<or> (\<exists>vx vy vz. px \<le> vx \<and> vx < px + sx \<and> py \<le> vy \<and> vy < py + sy \<and> pz \<le> vz \<and> vz < pz + sz
        \<and> min_e (fill_cell_exact img px py pz sx sy sz e) = voxel img (vx, vy, vz))"
proof -
  let ?as = "List.product [0..<nat sz] (List.product [0..<nat sy] [0..<nat sx])"
  let ?v = "\<lambda>a. voxel img (px + int (snd (snd a)), py + int (fst (snd a)), pz + int (fst a))"
  from fold_update_min_attained[of ?v ?v ?as e]
  show ?thesis
  proof
    assume "min_e (fold (\<lambda>a. update_min_max (?v a) (?v a)) ?as e) = min_e e"
    then show ?thesis unfolding fill_cell_flat by simp
  next
    assume "\<exists>a\<in>set ?as. min_e (fold (\<lambda>a. update_min_max (?v a) (?v a)) ?as e) = ?v a"
    then obtain a where a: "a \<in> set ?as" "min_e (fill_cell_exact img px py pz sx sy sz e) = ?v a"
      unfolding fill_cell_flat by blast
    obtain zz yy xx where e: "a = (zz, yy, xx)" by (cases a) auto
    from a(1) have "zz < nat sz" "yy < nat sy" "xx < nat sx" unfolding e by auto
    then have "px \<le> px + int xx \<and> px + int xx < px + sx
      \<and> py \<le> py + int yy \<and> py + int yy < py + sy
      \<and> pz \<le> pz + int zz \<and> pz + int zz < pz + sz"
      by linarith
    with a(2)[unfolded e] show ?thesis
      by (intro disjI2 exI[of _ "px + int xx"] exI[of _ "py + int yy"] exI[of _ "pz + int zz"]) simp
  qed
qed

lemma fill_cell_max_attained:
  "max_e (fill_cell_exact img px py pz sx sy sz e) = max_e e
   \<or> (\<exists>vx vy vz. px \<le> vx \<and> vx < px + sx \<and> py \<le> vy \<and> vy < py + sy \<and> pz \<le> vz \<and> vz < pz + sz
        \<and> max_e (fill_cell_exact img px py pz sx sy sz e) = voxel img (vx, vy, vz))"
proof -
  let ?as = "List.product [0..<nat sz] (List.product [0..<nat sy] [0..<nat sx])"
  let ?v = "\<lambda>a. voxel img (px + int (snd (snd a)), py + int (fst (snd a)), pz + int (fst a))"
  from fold_update_max_attained[of ?v ?v ?as e]
  show ?thesis
  proof
    assume "max_e (fold (\<lambda>a. update_min_max (?v a) (?v a)) ?as e) = max_e e"
    then show ?thesis unfolding fill_cell_flat by simp
  next
    assume "\<exists>a\<in>set ?as. max_e (fold (\<lambda>a. update_min_max (?v a) (?v a)) ?as e) = ?v a"
    then obtain a where a: "a \<in> set ?as" "max_e (fill_cell_exact img px py pz sx sy sz e) = ?v a"
      unfolding fill_cell_flat by blast
    obtain zz yy xx where e: "a = (zz, yy, xx)" by (cases a) auto
    from a(1) have "zz < nat sz" "yy < nat sy" "xx < nat sx" unfolding e by auto
    then have "px \<le> px + int xx \<and> px + int xx < px + sx
      \<and> py \<le> py + int yy \<and> py + int yy < py + sy
      \<and> pz \<le> pz + int zz \<and> pz + int zz < pz + sz"
      by linarith
    with a(2)[unfolded e] show ?thesis
      by (intro disjI2 exI[of _ "px + int xx"] exI[of _ "py + int yy"] exI[of _ "pz + int zz"]) simp
  qed
qed

lemma index3:
  fixes x y z nx ny nz :: nat
  assumes "x < nx" and "y < ny"
  shows "(x + nx * (y + ny * z)) div (ny * nx) = z"
    and "(x + nx * (y + ny * z)) mod (ny * nx) = x + nx * y"
    and "(x + nx * y) div nx = y"
    and "(x + nx * y) mod nx = x"
    and "z < nz \<Longrightarrow> x + nx * (y + ny * z) < nz * (ny * nx)"
proof -
  have a: "x + nx * y < ny * nx"
  proof -
    have "x + nx * y < nx + nx * y" using assms(1) by simp
    also have "\<dots> = nx * (y + 1)" by simp
    also have "\<dots> \<le> nx * ny" using assms(2) by (intro mult_le_mono2) simp
    finally show ?thesis by (simp add: mult.commute)
  qed
  have e: "x + nx * (y + ny * z) = (x + nx * y) + z * (ny * nx)" by (simp add: algebra_simps)
  have k: "0 < ny * nx" using a by (cases "ny * nx") auto
  show "(x + nx * (y + ny * z)) div (ny * nx) = z" unfolding e using a k by simp
  show "(x + nx * (y + ny * z)) mod (ny * nx) = x + nx * y" unfolding e using a k by simp
  show "(x + nx * y) div nx = y" using assms(1) by simp
  show "(x + nx * y) mod nx = x" using assms(1) by simp
  show "x + nx * (y + ny * z) < nz * (ny * nx)" if "z < nz"
  proof -
    have "x + nx * (y + ny * z) < ny * nx + z * (ny * nx)" unfolding e using a by simp
    also have "\<dots> = (z + 1) * (ny * nx)" by simp
    also have "\<dots> \<le> nz * (ny * nx)" using that by (intro mult_le_mono1) simp
    finally show ?thesis .
  qed
qed

lemma product3_nth:
  assumes "x < nx" and "y < ny" and "z < nz"
  shows "List.product [0..<nz] (List.product [0..<ny] [0..<nx]) ! (x + nx * (y + ny * z)) = (z, y, x)"
proof -
  let ?n = "x + nx * (y + ny * z)"
  have l: "length (List.product [0..<ny] [0..<nx]) = ny * nx" by simp
  have n: "?n < length [0..<nz] * length (List.product [0..<ny] [0..<nx])"
    using index3(5)[OF assms(1,2,3)] by simp
  have m: "x + nx * y < length [0..<ny] * length [0..<nx]"
    using index3(5)[OF assms(1,2), of 0 1] by simp
  show ?thesis
    unfolding product_nth[OF n] l index3(1,2)[OF assms(1,2)] product_nth[OF m]
    using assms index3(3,4)[OF assms(1,2)] by simp
qed

lemma grid_write:
  assumes "nx * ny * nz \<le> length els"
  shows "\<exists>pos els'.
     fold (\<lambda>z. fold (\<lambda>y. fold (\<lambda>x (pos, els). (pos + 1, els[pos := C z y x (els ! pos)]))
        [0..<nx]) [0..<ny]) [0..<nz] (0, els) = (pos, els')
     \<and> length els' = length els
     \<and> (\<forall>x<nx. \<forall>y<ny. \<forall>z<nz. els' ! (x + nx * (y + ny * z)) = C z y x (els ! (x + nx * (y + ny * z))))
     \<and> (\<forall>j<length els. nx * ny * nz \<le> j \<longrightarrow> els' ! j = els ! j)"
proof -
  let ?P = "List.product [0..<nz] (List.product [0..<ny] [0..<nx])"
  let ?F = "\<lambda>a. C (fst a) (fst (snd a)) (snd (snd a))"
  have lp: "length ?P = nx * ny * nz" by (simp add: mult.commute mult.left_commute)
  have e: "fold (\<lambda>z. fold (\<lambda>y. fold (\<lambda>x (pos, els). (pos + 1, els[pos := C z y x (els ! pos)]))
        [0..<nx]) [0..<ny]) [0..<nz] =
     fold (\<lambda>a (pos, els). (pos + 1, els[pos := ?F a (els ! pos)])) ?P"
    unfolding fold_product3 by (simp add: case_prod_unfold)
  have "0 + length ?P \<le> length els" using assms unfolding lp by simp
  from seq_write[OF this, of ?F] obtain els' where r:
    "fold (\<lambda>a (pos, els). (pos + 1, els[pos := ?F a (els ! pos)])) ?P (0, els) = (0 + length ?P, els')"
    "length els' = length els"
    "\<forall>j<length els. els' ! j = (if 0 \<le> j \<and> j < 0 + length ?P then ?F (?P ! (j - 0)) (els ! j) else els ! j)"
    by blast
  have a: "els' ! (x + nx * (y + ny * z)) = C z y x (els ! (x + nx * (y + ny * z)))"
    if "x < nx" "y < ny" "z < nz" for x y z
  proof -
    have lt: "x + nx * (y + ny * z) < nz * (ny * nx)"
      using index3(5)[OF that(1,2,3)] .
    then have "x + nx * (y + ny * z) < length els" using assms by (simp add: ac_simps)
    with r(3) lt show ?thesis by (simp add: product3_nth[OF that])
  qed
  have b: "\<forall>j<length els. nx * ny * nz \<le> j \<longrightarrow> els' ! j = els ! j"
    using r(3) by (simp add: ac_simps)
  show ?thesis unfolding e using r(1,2) a b by blast
qed

lemma fill_x_fold:
  "fold (fill_x_exact img lx sy sz py pz) [0..<length lx] (pos, 0, els) =
     (case fold (\<lambda>x (pos, els). (pos + 1,
          els[pos := fill_cell_exact img (origin lx x) py pz (lx ! x) sy sz (els ! pos)]))
        [0..<length lx] (pos, els) of
      (pos', els') \<Rightarrow> (pos', origin lx (length lx), els'))"
  using fold_offset[where body = "fill_x_exact img lx sy sz py pz" and ext = lx and n = "length lx"
      and start = 0 and pos = pos and els = els
      and body' = "\<lambda>x px (pos, els). (pos + 1, els[pos := fill_cell_exact img px py pz (lx ! x) sy sz (els ! pos)])"]
  by (simp add: fill_x_exact_def)

lemma fill_y_fold:
  "fold (fill_y_exact img lx ly sz pz) [0..<length ly] (pos, 0, els) =
     (case fold (\<lambda>y. fold (\<lambda>x (pos, els). (pos + 1,
          els[pos := fill_cell_exact img (origin lx x) (origin ly y) pz (lx ! x) (ly ! y) sz (els ! pos)]))
        [0..<length lx]) [0..<length ly] (pos, els) of
      (pos', els') \<Rightarrow> (pos', origin ly (length ly), els'))"
  using fold_offset[where body = "fill_y_exact img lx ly sz pz" and ext = ly and n = "length ly"
      and start = 0 and pos = pos and els = els
      and body' = "\<lambda>y py. fold (\<lambda>x (pos, els). (pos + 1,
          els[pos := fill_cell_exact img (origin lx x) py pz (lx ! x) (ly ! y) sz (els ! pos)])) [0..<length lx]"]
  by (simp add: fill_y_exact_def fill_x_fold split: prod.splits)

lemma fill_z_fold:
  "fold (fill_z_exact img lx ly lz) [0..<length lz] (pos, 0, els) =
     (case fold (\<lambda>z. fold (\<lambda>y. fold (\<lambda>x (pos, els). (pos + 1,
          els[pos := fill_cell_exact img (origin lx x) (origin ly y) (origin lz z) (lx ! x) (ly ! y) (lz ! z)
                 (els ! pos)]))
        [0..<length lx]) [0..<length ly]) [0..<length lz] (pos, els) of
      (pos', els') \<Rightarrow> (pos', origin lz (length lz), els'))"
  using fold_offset[where body = "fill_z_exact img lx ly lz" and ext = lz and n = "length lz"
      and start = 0 and pos = pos and els = els
      and body' = "\<lambda>z pz. fold (\<lambda>y. fold (\<lambda>x (pos, els). (pos + 1,
          els[pos := fill_cell_exact img (origin lx x) (origin ly y) pz (lx ! x) (ly ! y) (lz ! z) (els ! pos)]))
            [0..<length lx]) [0..<length ly]"]
  by (simp add: fill_z_exact_def fill_y_fold split: prod.splits)

lemma fill_finest:
  assumes "length lx * length ly * length lz \<le> length els"
  shows "\<exists>pos pz els'. fold (fill_z_exact img lx ly lz) [0..<length lz] (0, 0, els) = (pos, pz, els')
     \<and> length els' = length els
     \<and> (\<forall>x<length lx. \<forall>y<length ly. \<forall>z<length lz.
          els' ! (x + length lx * (y + length ly * z)) =
            fill_cell_exact img (origin lx x) (origin ly y) (origin lz z) (lx ! x) (ly ! y) (lz ! z)
              (els ! (x + length lx * (y + length ly * z))))"
proof -
  from grid_write[OF assms, of "\<lambda>z y x. fill_cell_exact img (origin lx x) (origin ly y) (origin lz z)
      (lx ! x) (ly ! y) (lz ! z)"]
  obtain pos els' where r:
    "fold (\<lambda>z. fold (\<lambda>y. fold (\<lambda>x (pos, els). (pos + 1,
          els[pos := fill_cell_exact img (origin lx x) (origin ly y) (origin lz z) (lx ! x) (ly ! y) (lz ! z)
                 (els ! pos)]))
        [0..<length lx]) [0..<length ly]) [0..<length lz] (0, els) = (pos, els')"
    "length els' = length els"
    "\<forall>x<length lx. \<forall>y<length ly. \<forall>z<length lz.
          els' ! (x + length lx * (y + length ly * z)) =
            fill_cell_exact img (origin lx x) (origin ly y) (origin lz z) (lx ! x) (ly ! y) (lz ! z)
              (els ! (x + length lx * (y + length ly * z)))"
    by blast
  show ?thesis unfolding fill_z_fold r(1) using r(2,3) by simp
qed

section \<open>The propagation to the coarser layers\<close>

lemma propagate_x_fold:
  assumes "layer < length data"
  shows "fold (propagate_x t layer y z) xs (pos, data) =
     (case fold (\<lambda>x (pos, els). (pos + 1,
          els[pos := propagate_element t layer x y z (data ! (layer + 1)) (els ! pos)]))
        xs (pos, data ! layer) of
      (pos', els') \<Rightarrow> (pos', data[layer := els']))"
  using fold_lift[where body = "propagate_x t layer y z" and layer = layer and data = data
      and xs = xs and pos = pos
      and body' = "\<lambda>x down (pos, els). (pos + 1,
          els[pos := propagate_element t layer x y z down (els ! pos)])", OF _ assms]
  by (simp add: propagate_x_def)

lemma propagate_y_fold:
  assumes "layer < length data"
  shows "fold (propagate_y t layer z) ys (pos, data) =
     (case fold (\<lambda>y. fold (\<lambda>x (pos, els). (pos + 1,
          els[pos := propagate_element t layer x y z (data ! (layer + 1)) (els ! pos)]))
        [0..<length (m_gridX t ! layer)]) ys (pos, data ! layer) of
      (pos', els') \<Rightarrow> (pos', data[layer := els']))"
  using fold_lift[where body = "propagate_y t layer z" and layer = layer and data = data
      and xs = ys and pos = pos
      and body' = "\<lambda>y down. fold (\<lambda>x (pos, els). (pos + 1,
          els[pos := propagate_element t layer x y z down (els ! pos)]))
            [0..<length (m_gridX t ! layer)]", OF _ assms]
  by (simp add: propagate_y_def propagate_x_fold)

lemma propagate_z_fold:
  assumes "layer < length data"
  shows "fold (propagate_z t layer) zs (pos, data) =
     (case fold (\<lambda>z. fold (\<lambda>y. fold (\<lambda>x (pos, els). (pos + 1,
          els[pos := propagate_element t layer x y z (data ! (layer + 1)) (els ! pos)]))
        [0..<length (m_gridX t ! layer)]) [0..<length (m_gridY t ! layer)]) zs (pos, data ! layer) of
      (pos', els') \<Rightarrow> (pos', data[layer := els']))"
  using fold_lift[where body = "propagate_z t layer" and layer = layer and data = data
      and xs = zs and pos = pos
      and body' = "\<lambda>z down. fold (\<lambda>y. fold (\<lambda>x (pos, els). (pos + 1,
          els[pos := propagate_element t layer x y z down (els ! pos)]))
            [0..<length (m_gridX t ! layer)]) [0..<length (m_gridY t ! layer)]", OF _ assms]
  by (simp add: propagate_z_def propagate_y_fold)

lemma propagate_layer_result:
  assumes "layer < length data"
    and "length (m_gridX t ! layer) * length (m_gridY t ! layer) * length (m_gridZ t ! layer)
          \<le> length (data ! layer)"
  shows "\<exists>els'. propagate_layer t layer data = data[layer := els']
     \<and> length els' = length (data ! layer)
     \<and> (\<forall>x<length (m_gridX t ! layer). \<forall>y<length (m_gridY t ! layer). \<forall>z<length (m_gridZ t ! layer).
          els' ! (x + length (m_gridX t ! layer) * (y + length (m_gridY t ! layer) * z)) =
            propagate_element t layer x y z (data ! (layer + 1))
              (data ! layer ! (x + length (m_gridX t ! layer) * (y + length (m_gridY t ! layer) * z))))"
proof -
  from grid_write[OF assms(2), of "\<lambda>z y x. propagate_element t layer x y z (data ! (layer + 1))"]
  obtain pos els' where r:
    "fold (\<lambda>z. fold (\<lambda>y. fold (\<lambda>x (pos, els). (pos + 1,
          els[pos := propagate_element t layer x y z (data ! (layer + 1)) (els ! pos)]))
        [0..<length (m_gridX t ! layer)]) [0..<length (m_gridY t ! layer)])
        [0..<length (m_gridZ t ! layer)] (0, data ! layer) = (pos, els')"
    "length els' = length (data ! layer)"
    "\<forall>x<length (m_gridX t ! layer). \<forall>y<length (m_gridY t ! layer). \<forall>z<length (m_gridZ t ! layer).
          els' ! (x + length (m_gridX t ! layer) * (y + length (m_gridY t ! layer) * z)) =
            propagate_element t layer x y z (data ! (layer + 1))
              (data ! layer ! (x + length (m_gridX t ! layer) * (y + length (m_gridY t ! layer) * z)))"
    by blast
  have "propagate_layer t layer data = data[layer := els']"
    unfolding propagate_layer_def propagate_z_fold[OF assms(1)] r(1) by simp
  with r(2,3) show ?thesis by blast
qed

lemma propagate_layers_completed:
  "\<forall>k. reads \<le> k \<and> k < reads + layer_slices t layers \<longrightarrow> \<not> abort k \<Longrightarrow>
   propagate_layers abort t layers (reads, data) =
     Inr (reads + layer_slices t layers, fold (propagate_layer t) layers data)"
proof (induction layers arbitrary: reads data)
  case Nil then show ?case by (simp add: layer_slices_def)
next
  case (Cons layer layers)
  let ?n = "length (m_gridZ t ! layer)"
  have ls: "layer_slices t (layer # layers) = ?n + layer_slices t layers" by (simp add: layer_slices_def)
  have a: "\<forall>k. reads \<le> k \<and> k < reads + length [0..<?n] \<longrightarrow> \<not> abort k"
    using Cons.prems ls by simp
  have b: "\<forall>k. reads + ?n \<le> k \<and> k < reads + ?n + layer_slices t layers \<longrightarrow> \<not> abort k"
    using Cons.prems ls by simp
  obtain p d where f: "fold (propagate_z t layer) [0..<?n] (0, data) = (p, d)" by fastforce
  then have d: "propagate_layer t layer data = d" by (simp add: propagate_layer_def)
  show ?case
    using slices_loop_no_abort[OF a, of "propagate_z t layer" "(0, data)"] f ls Cons.IH[OF b, of d] d
    by (simp add: add.assoc)
qed

lemma propagate_layers_fold:
  assumes "k < length data"
    and "\<forall>L<k. length (m_gridX t ! L) * length (m_gridY t ! L) * length (m_gridZ t ! L)
          \<le> length (data ! L)"
  shows "length (fold (propagate_layer t) (rev [0..<k]) data) = length data
     \<and> (\<forall>L. k \<le> L \<longrightarrow> fold (propagate_layer t) (rev [0..<k]) data ! L = data ! L)
     \<and> (\<forall>L<k. length (fold (propagate_layer t) (rev [0..<k]) data ! L) = length (data ! L)
          \<and> (\<forall>x<length (m_gridX t ! L). \<forall>y<length (m_gridY t ! L). \<forall>z<length (m_gridZ t ! L).
               fold (propagate_layer t) (rev [0..<k]) data ! L
                  ! (x + length (m_gridX t ! L) * (y + length (m_gridY t ! L) * z)) =
                 propagate_element t L x y z (fold (propagate_layer t) (rev [0..<k]) data ! (L + 1))
                   (data ! L ! (x + length (m_gridX t ! L) * (y + length (m_gridY t ! L) * z)))))"
  using assms
proof (induction k arbitrary: data)
  case 0 then show ?case by simp
next
  case (Suc k)
  let ?d1 = "propagate_layer t k data"
  let ?d' = "fold (propagate_layer t) (rev [0..<k]) ?d1"
  have e: "fold (propagate_layer t) (rev [0..<Suc k]) data = ?d'" by simp
  have kl: "k < length data" using Suc.prems(1) by simp
  have sz: "length (m_gridX t ! k) * length (m_gridY t ! k) * length (m_gridZ t ! k) \<le> length (data ! k)"
    using Suc.prems(2) by simp
  from propagate_layer_result[OF kl sz] obtain els' where r:
    "?d1 = data[k := els']" "length els' = length (data ! k)"
    "\<forall>x<length (m_gridX t ! k). \<forall>y<length (m_gridY t ! k). \<forall>z<length (m_gridZ t ! k).
          els' ! (x + length (m_gridX t ! k) * (y + length (m_gridY t ! k) * z)) =
            propagate_element t k x y z (data ! (k + 1))
              (data ! k ! (x + length (m_gridX t ! k) * (y + length (m_gridY t ! k) * z)))"
    by blast
  have l1: "k < length ?d1" using r(1) kl by simp
  have d1: "?d1 ! L = (if L = k then els' else data ! L)" for L
    using r(1) kl by (simp add: nth_list_update)
  have sz1: "\<forall>L<k. length (m_gridX t ! L) * length (m_gridY t ! L) * length (m_gridZ t ! L)
          \<le> length (?d1 ! L)"
    using Suc.prems(2) d1 by simp
  note IH = Suc.IH[OF l1 sz1]
  have ge: "?d' ! L = ?d1 ! L" if "k \<le> L" for L using IH that by blast
  have a: "length ?d' = length data" using IH r(1) by simp
  have b: "\<forall>L. Suc k \<le> L \<longrightarrow> ?d' ! L = data ! L"
    using ge d1 by simp
  have c: "length (?d' ! L) = length (data ! L)
        \<and> (\<forall>x<length (m_gridX t ! L). \<forall>y<length (m_gridY t ! L). \<forall>z<length (m_gridZ t ! L).
               ?d' ! L ! (x + length (m_gridX t ! L) * (y + length (m_gridY t ! L) * z)) =
                 propagate_element t L x y z (?d' ! (L + 1))
                   (data ! L ! (x + length (m_gridX t ! L) * (y + length (m_gridY t ! L) * z))))"
    if "L < Suc k" for L
  proof (cases "L = k")
    case True
    have "?d' ! k = els'" using ge[of k] d1[of k] by simp
    moreover have "?d' ! (k + 1) = data ! (k + 1)" using ge[of "k + 1"] d1[of "k + 1"] by simp
    ultimately show ?thesis using r(2,3) True by simp
  next
    case False
    then have lk: "L < k" using that by simp
    then have "?d1 ! L = data ! L" using d1 by simp
    then show ?thesis using IH lk by simp
  qed
  show ?case unfolding e using a b c by blast
qed

lemma propagate_element_usable [simp]:
  "propagate_element (t\<lparr>m_usable := b\<rparr>) = propagate_element t"
  by (simp add: propagate_element_def getSplit_def fun_eq_iff)

lemma propagate_x_usable [simp]:
  "propagate_x (t\<lparr>m_usable := b\<rparr>) = propagate_x t"
  by (simp add: propagate_x_def fun_eq_iff)

lemma propagate_y_usable [simp]:
  "propagate_y (t\<lparr>m_usable := b\<rparr>) = propagate_y t"
  by (simp add: propagate_y_def fun_eq_iff)

lemma propagate_z_usable [simp]:
  "propagate_z (t\<lparr>m_usable := b\<rparr>) = propagate_z t"
  by (simp add: propagate_z_def fun_eq_iff)

lemma propagate_layer_usable [simp]:
  "propagate_layer (t\<lparr>m_usable := b\<rparr>) = propagate_layer t"
  by (simp add: propagate_layer_def fun_eq_iff)

lemma layer_slices_usable [simp]:
  "layer_slices (t\<lparr>m_usable := b\<rparr>) = layer_slices t"
  by (simp add: layer_slices_def fun_eq_iff)

lemma fill_completed_data:
  assumes ok: "tree_ok w h s t" and na: "\<forall>k<depth_slices t. \<not> abort k"
  shows "\<exists>data'. fill_exact img abort t = Inr (t\<lparr>m_data := data', m_usable := True\<rparr>)
     \<and> length data' = m_numLayers t
     \<and> (\<forall>L<m_numLayers t. length (data' ! L) = length (m_data t ! L))
     \<and> (\<forall>x<length (m_gridX t ! (m_numLayers t - 1)).
        \<forall>y<length (m_gridY t ! (m_numLayers t - 1)).
        \<forall>z<length (m_gridZ t ! (m_numLayers t - 1)).
          data' ! (m_numLayers t - 1) ! (x + length (m_gridX t ! (m_numLayers t - 1)) *
              (y + length (m_gridY t ! (m_numLayers t - 1)) * z)) =
            fill_cell_exact img (origin (m_gridX t ! (m_numLayers t - 1)) x)
              (origin (m_gridY t ! (m_numLayers t - 1)) y)
              (origin (m_gridZ t ! (m_numLayers t - 1)) z)
              (m_gridX t ! (m_numLayers t - 1) ! x) (m_gridY t ! (m_numLayers t - 1) ! y)
              (m_gridZ t ! (m_numLayers t - 1) ! z)
              (m_data t ! (m_numLayers t - 1) ! (x + length (m_gridX t ! (m_numLayers t - 1)) *
              (y + length (m_gridY t ! (m_numLayers t - 1)) * z))))
     \<and> (\<forall>L. L + 1 < m_numLayers t \<longrightarrow>
          (\<forall>x<length (m_gridX t ! L). \<forall>y<length (m_gridY t ! L). \<forall>z<length (m_gridZ t ! L).
             data' ! L ! (x + length (m_gridX t ! L) * (y + length (m_gridY t ! L) * z)) =
               propagate_element t L x y z (data' ! (L + 1))
                 (m_data t ! L ! (x + length (m_gridX t ! L) * (y + length (m_gridY t ! L) * z)))))"
proof -
  let ?t = "t\<lparr>m_usable := False\<rparr>"
  let ?N = "m_numLayers t"
  let ?last = "?N - 1"
  let ?lx = "m_gridX t ! ?last"
  let ?ly = "m_gridY t ! ?last"
  let ?lz = "m_gridZ t ! ?last"
  let ?layers = "rev [0..<?N - 1]"
  have N: "0 < ?N" and ld: "length (m_data t) = ?N"
    and shape: "\<forall>k<?N. length (m_data t ! k) =
        length (m_gridX t ! k) * length (m_gridY t ! k) * length (m_gridZ t ! k)"
    using ok by (simp_all add: tree_ok_def)
  have ds: "depth_slices t = length ?lz + layer_slices t ?layers"
    using depth_slices_split[OF N] .
  have a: "\<forall>k. 0 \<le> k \<and> k < 0 + length [0..<length ?lz] \<longrightarrow> \<not> abort k"
    using na ds by simp
  have b: "\<forall>k. length ?lz \<le> k \<and> k < length ?lz + layer_slices t ?layers \<longrightarrow> \<not> abort k"
    using na ds by simp
  have szl: "length ?lx * length ?ly * length ?lz \<le> length (m_data t ! ?last)"
    using shape N by simp
  from fill_finest[OF szl, of img] obtain pos pz els' where f:
    "fold (fill_z_exact img ?lx ?ly ?lz) [0..<length ?lz] (0, 0, m_data t ! ?last) = (pos, pz, els')"
    "length els' = length (m_data t ! ?last)"
    "\<forall>x<length ?lx. \<forall>y<length ?ly. \<forall>z<length ?lz.
          els' ! (x + length ?lx * (y + length ?ly * z)) =
            fill_cell_exact img (origin ?lx x) (origin ?ly y) (origin ?lz z) (?lx ! x) (?ly ! y) (?lz ! z)
              (m_data t ! ?last ! (x + length ?lx * (y + length ?ly * z)))"
    by blast
  let ?d0 = "(m_data t)[?last := els']"
  let ?d' = "fold (propagate_layer t) ?layers ?d0"
  have s1: "slices_loop abort (fill_z_exact img ?lx ?ly ?lz) [0..<length ?lz] (0, (0, 0, m_data t ! ?last))
      = Inr (length ?lz, (pos, pz, els'))"
    using slices_loop_no_abort[OF a, of "fill_z_exact img ?lx ?ly ?lz" "(0, 0, m_data t ! ?last)"] f(1)
    by simp
  have s2: "propagate_layers abort ?t ?layers (length ?lz, ?d0) =
      Inr (length ?lz + layer_slices t ?layers, ?d')"
    using propagate_layers_completed[of "length ?lz" ?t ?layers abort ?d0] b by simp
  have r: "fill_exact img abort t = Inr (t\<lparr>m_data := ?d', m_usable := True\<rparr>)"
    using s1 s2 by (simp add: fill_exact_def Let_def)
  have d0: "?d0 ! L = (if L = ?last then els' else m_data t ! L)" if "L < ?N" for L
    using ld that by (simp add: nth_list_update)
  have kl: "?last < length ?d0" using ld N by simp
  have sz: "\<forall>L<?last. length (m_gridX t ! L) * length (m_gridY t ! L) * length (m_gridZ t ! L)
          \<le> length (?d0 ! L)"
    using shape d0 by simp
  note pf = propagate_layers_fold[OF kl sz]
  have l: "length ?d' = ?N" using pf ld by simp
  have lastd: "?d' ! ?last = els'" using pf d0[of ?last] N by simp
  have lens: "\<forall>L<?N. length (?d' ! L) = length (m_data t ! L)"
  proof (intro allI impI)
    fix L assume L: "L < ?N"
    show "length (?d' ! L) = length (m_data t ! L)"
    proof (cases "L = ?last")
      case True then show ?thesis using lastd f(2) by simp
    next
      case False
      then have "L < ?last" using L by simp
      then show ?thesis using pf d0[OF L] False by simp
    qed
  qed
  have fin: "\<forall>x<length ?lx. \<forall>y<length ?ly. \<forall>z<length ?lz.
          ?d' ! ?last ! (x + length ?lx * (y + length ?ly * z)) =
            fill_cell_exact img (origin ?lx x) (origin ?ly y) (origin ?lz z) (?lx ! x) (?ly ! y) (?lz ! z)
              (m_data t ! ?last ! (x + length ?lx * (y + length ?ly * z)))"
    unfolding lastd using f(3) .
  have up: "\<forall>L. L + 1 < ?N \<longrightarrow>
          (\<forall>x<length (m_gridX t ! L). \<forall>y<length (m_gridY t ! L). \<forall>z<length (m_gridZ t ! L).
             ?d' ! L ! (x + length (m_gridX t ! L) * (y + length (m_gridY t ! L) * z)) =
               propagate_element t L x y z (?d' ! (L + 1))
                 (m_data t ! L ! (x + length (m_gridX t ! L) * (y + length (m_gridY t ! L) * z))))"
  proof (intro allI impI)
    fix L x y z
    assume L: "L + 1 < ?N" and x: "x < length (m_gridX t ! L)" and y: "y < length (m_gridY t ! L)"
      and z: "z < length (m_gridZ t ! L)"
    have lk: "L < ?last" using L by simp
    have "?d0 ! L = m_data t ! L" using d0[of L] L by simp
    with pf lk x y z show "?d' ! L ! (x + length (m_gridX t ! L) * (y + length (m_gridY t ! L) * z)) =
               propagate_element t L x y z (?d' ! (L + 1))
                 (m_data t ! L ! (x + length (m_gridX t ! L) * (y + length (m_gridY t ! L) * z)))"
      by simp
  qed
  show ?thesis using r l lens fin up by blast
qed

section \<open>Cells and their children\<close>

lemma origin_0 [simp]: "origin g 0 = 0"
  by (simp add: origin_def)

lemma origin_Suc: "i < length g \<Longrightarrow> origin g (Suc i) = origin g i + g ! i"
  by (simp add: origin_def take_Suc_conv_app_nth)

lemma origin_step:
  assumes "\<forall>s\<in>set g. 0 \<le> s" and "i < j" and "j \<le> length g"
  shows "origin g i + g ! i \<le> origin g j"
  using assms(2,3)
proof (induction j)
  case 0 then show ?case by simp
next
  case (Suc j)
  have jl: "j < length g" using Suc.prems by simp
  then have nn: "0 \<le> g ! j" using assms(1) by simp
  show ?case
  proof (cases "i = j")
    case True then show ?thesis using origin_Suc[OF jl] by simp
  next
    case False
    then have "origin g i + g ! i \<le> origin g j" using Suc by simp
    then show ?thesis using origin_Suc[OF jl] nn by simp
  qed
qed


lemma take_newLayer: "take (2 * i) (newLayer g) = newLayer (take i g)"
proof (induction g arbitrary: i)
  case Nil then show ?case by (simp add: newLayer_def)
next
  case (Cons s g)
  show ?case
  proof (cases i)
    case 0 then show ?thesis by (simp add: newLayer_def)
  next
    case (Suc k)
    have "newLayer (s # g) = half s # (s - half s) # newLayer g" by (simp add: newLayer_def)
    moreover have "newLayer (s # take k g) = half s # (s - half s) # newLayer (take k g)"
      by (simp add: newLayer_def)
    ultimately show ?thesis using Suc Cons[of k] by simp
  qed
qed

lemma newLayer_nth:
  "i < length g \<Longrightarrow> newLayer g ! (2 * i) = half (g ! i) \<and> newLayer g ! (2 * i + 1) = g ! i - half (g ! i)"
proof (induction g arbitrary: i)
  case Nil then show ?case by simp
next
  case (Cons s g)
  have e: "newLayer (s # g) = half s # (s - half s) # newLayer g" by (simp add: newLayer_def)
  show ?case
  proof (cases i)
    case 0 then show ?thesis by (simp add: e)
  next
    case (Suc k)
    then have "k < length g" using Cons.prems by simp
    from Cons.IH[OF this] show ?thesis using Suc by (simp add: e)
  qed
qed

lemma origin_newLayer: "origin (newLayer g) (2 * i) = origin g i"
  by (simp add: origin_def take_newLayer sum_list_newLayer)

lemma in_interval_newLayer:
  assumes "i < length g" and "0 \<le> g ! i"
  shows "in_interval g i v \<longleftrightarrow>
     in_interval (newLayer g) (2 * i) v \<or> in_interval (newLayer g) (2 * i + 1) v"
proof -
  have l: "2 * i < length (newLayer g)" using assms(1) by (simp add: length_newLayer)
  have o1: "origin (newLayer g) (2 * i + 1) = origin g i + half (g ! i)"
    using origin_Suc[OF l] newLayer_nth[OF assms(1)] by (simp add: origin_newLayer)
  have h: "0 \<le> half (g ! i)" "half (g ! i) \<le> g ! i" using assms(2) by (simp_all add: half_def)
  show ?thesis
    unfolding in_interval_def o1 origin_newLayer
    using newLayer_nth[OF assms(1)] h by auto
qed

lemma axis_children:
  assumes "axis_ok dim g" and "L + 1 < length g" and "i < length (g ! L)"
  shows "length (g ! (L + 1)) = (length (g ! (L + 1)) div length (g ! L)) * length (g ! L)"
    and "0 < length (g ! (L + 1)) div length (g ! L)"
    and "in_interval (g ! L) i v \<longleftrightarrow>
        (\<exists>r<length (g ! (L + 1)) div length (g ! L).
           in_interval (g ! (L + 1)) ((length (g ! (L + 1)) div length (g ! L)) * i + r) v)"
    and "r < length (g ! (L + 1)) div length (g ! L) \<Longrightarrow>
         (length (g ! (L + 1)) div length (g ! L)) * i + r < length (g ! (L + 1))"
proof -
  let ?f = "length (g ! (L + 1)) div length (g ! L)"
  have ne: "0 < length (g ! L)" using assms(3) by (cases "g ! L") auto
  have pos: "0 \<le> g ! L ! i" using assms unfolding axis_ok_def by (metis Suc_eq_plus1 Suc_lessD less_imp_le nth_mem)
  from assms(1,2) consider (split) "g ! (L + 1) = newLayer (g ! L)" | (same) "g ! (L + 1) = g ! L"
    unfolding axis_ok_def by blast
  then have "length (g ! (L + 1)) = ?f * length (g ! L) \<and> 0 < ?f
     \<and> (in_interval (g ! L) i v \<longleftrightarrow> (\<exists>r<?f. in_interval (g ! (L + 1)) (?f * i + r) v))
     \<and> (\<forall>r<?f. ?f * i + r < length (g ! (L + 1)))"
  proof cases
    case split
    have f: "?f = 2" using split ne by (simp add: length_newLayer)
    have ex2: "(\<exists>r<2::nat. P r) \<longleftrightarrow> P 0 \<or> P 1" for P
      by (metis One_nat_def less_2_cases_iff)
    show ?thesis unfolding f
      using in_interval_newLayer[OF assms(3) pos, of v] split assms(3)
      by (auto simp: length_newLayer ex2)
  next
    case same
    have f: "?f = 1" using same ne by simp
    show ?thesis unfolding f using same assms(3) by simp
  qed
  then show "length (g ! (L + 1)) = ?f * length (g ! L)" and "0 < ?f"
    and "in_interval (g ! L) i v \<longleftrightarrow> (\<exists>r<?f. in_interval (g ! (L + 1)) (?f * i + r) v)"
    and "r < ?f \<Longrightarrow> ?f * i + r < length (g ! (L + 1))"
    by blast+
qed

lemma children_set:
  "set (children t L x y z) =
     (case getSplit t L of (fx, fy, fz) \<Rightarrow>
        {(fx * x + xx, fy * y + yy, fz * z + zz) | xx yy zz. xx < fx \<and> yy < fy \<and> zz < fz})"
  by (auto simp: children_def image_iff split: prod.splits)

lemma getSplit_update [simp]:
  "getSplit (t\<lparr>m_data := d\<rparr>) = getSplit t"
  "getSplit (t\<lparr>m_usable := b\<rparr>) = getSplit t"
  "getSplit (t\<lparr>m_min := lo\<rparr>) = getSplit t"
  "getSplit (t\<lparr>m_max := hi\<rparr>) = getSplit t"
  "getSplit (t\<lparr>m_voxelsInside := vi\<rparr>) = getSplit t"
  "getSplit (t\<lparr>m_cubesInside := cs\<rparr>) = getSplit t"
  by (simp_all add: getSplit_def fun_eq_iff)

lemma children_update [simp]:
  "children (t\<lparr>m_data := d\<rparr>) = children t"
  "children (t\<lparr>m_usable := b\<rparr>) = children t"
  "children (t\<lparr>m_min := lo\<rparr>) = children t"
  "children (t\<lparr>m_max := hi\<rparr>) = children t"
  "children (t\<lparr>m_voxelsInside := vi\<rparr>) = children t"
  "children (t\<lparr>m_cubesInside := cs\<rparr>) = children t"
  by (simp_all add: children_def fun_eq_iff)

lemma in_cell_update [simp]:
  "in_cell (t\<lparr>m_data := d\<rparr>) = in_cell t"
  "in_cell (t\<lparr>m_usable := b\<rparr>) = in_cell t"
  "in_cell (t\<lparr>m_min := lo\<rparr>) = in_cell t"
  "in_cell (t\<lparr>m_max := hi\<rparr>) = in_cell t"
  "in_cell (t\<lparr>m_voxelsInside := vi\<rparr>) = in_cell t"
  "in_cell (t\<lparr>m_cubesInside := cs\<rparr>) = in_cell t"
  by (simp_all add: in_cell_def fun_eq_iff)

lemma cell_defined_update [simp]:
  "cell_defined (t\<lparr>m_data := d\<rparr>) = cell_defined t"
  "cell_defined (t\<lparr>m_usable := b\<rparr>) = cell_defined t"
  "cell_defined (t\<lparr>m_min := lo\<rparr>) = cell_defined t"
  "cell_defined (t\<lparr>m_max := hi\<rparr>) = cell_defined t"
  "cell_defined (t\<lparr>m_voxelsInside := vi\<rparr>) = cell_defined t"
  "cell_defined (t\<lparr>m_cubesInside := cs\<rparr>) = cell_defined t"
  by (simp_all add: cell_defined_def fun_eq_iff)

lemma tree_ok_layers:
  assumes "tree_ok w h s t" and "L + 1 < m_numLayers t"
  shows "L + 1 < length (m_gridX t)" "L + 1 < length (m_gridY t)" "L + 1 < length (m_gridZ t)"
    "axis_ok w (m_gridX t)" "axis_ok h (m_gridY t)" "axis_ok s (m_gridZ t)"
  using assms by (simp_all add: tree_ok_def)

lemma children_in_range:
  assumes ok: "tree_ok w h s t" and L: "L + 1 < m_numLayers t"
    and c: "cell_defined t L x y z"
    and m: "(cx, cy, cz) \<in> set (children t L x y z)"
  shows "cell_defined t (L + 1) cx cy cz"
proof -
  note lay = tree_ok_layers[OF ok L]
  from c have x: "x < length (m_gridX t ! L)" and y: "y < length (m_gridY t ! L)"
    and z: "z < length (m_gridZ t ! L)" by (simp_all add: cell_defined_def)
  from m obtain xx yy zz where
    xx: "xx < length (m_gridX t ! (L + 1)) div length (m_gridX t ! L)"
      "cx = (length (m_gridX t ! (L + 1)) div length (m_gridX t ! L)) * x + xx"
    and yy: "yy < length (m_gridY t ! (L + 1)) div length (m_gridY t ! L)"
      "cy = (length (m_gridY t ! (L + 1)) div length (m_gridY t ! L)) * y + yy"
    and zz: "zz < length (m_gridZ t ! (L + 1)) div length (m_gridZ t ! L)"
      "cz = (length (m_gridZ t ! (L + 1)) div length (m_gridZ t ! L)) * z + zz"
    unfolding children_set getSplit_def by auto
  show ?thesis
    unfolding cell_defined_def xx(2) yy(2) zz(2)
    using axis_children(4)[OF lay(4) lay(1) x xx(1)] axis_children(4)[OF lay(5) lay(2) y yy(1)]
      axis_children(4)[OF lay(6) lay(3) z zz(1)] lay(1,2,3)
    by simp
qed

lemma in_cell_children:
  assumes ok: "tree_ok w h s t" and L: "L + 1 < m_numLayers t"
    and c: "cell_defined t L x y z"
  shows "in_cell t L x y z v \<longleftrightarrow>
     (\<exists>c\<in>set (children t L x y z). case c of (cx, cy, cz) \<Rightarrow> in_cell t (L + 1) cx cy cz v)"
proof -
  note lay = tree_ok_layers[OF ok L]
  from c have x: "x < length (m_gridX t ! L)" and y: "y < length (m_gridY t ! L)"
    and z: "z < length (m_gridZ t ! L)" by (simp_all add: cell_defined_def)
  obtain vx vy vz where v: "v = (vx, vy, vz)" by (cases v) auto
  show ?thesis
    unfolding v in_cell_def children_set getSplit_def
    using axis_children(3)[OF lay(4) lay(1) x, of vx] axis_children(3)[OF lay(5) lay(2) y, of vy]
      axis_children(3)[OF lay(6) lay(3) z, of vz]
    by (simp add: Bex_def) blast
qed

lemma children_nonempty:
  assumes ok: "tree_ok w h s t" and L: "L + 1 < m_numLayers t"
    and c: "cell_defined t L x y z"
  shows "children t L x y z \<noteq> []"
proof -
  note lay = tree_ok_layers[OF ok L]
  from c have x: "x < length (m_gridX t ! L)" and y: "y < length (m_gridY t ! L)"
    and z: "z < length (m_gridZ t ! L)" by (simp_all add: cell_defined_def)
  let ?c = "((length (m_gridX t ! (L + 1)) div length (m_gridX t ! L)) * x + 0,
     (length (m_gridY t ! (L + 1)) div length (m_gridY t ! L)) * y + 0,
     (length (m_gridZ t ! (L + 1)) div length (m_gridZ t ! L)) * z + 0)"
  have "?c \<in> set (children t L x y z)"
    unfolding children_set getSplit_def
    using axis_children(2)[OF lay(4) lay(1) x] axis_children(2)[OF lay(5) lay(2) y]
      axis_children(2)[OF lay(6) lay(3) z]
    by (simp del: add_0_right)
  then show ?thesis by auto
qed


lemma cell_nonempty:
  assumes ok: "tree_ok w h s t" and L: "L < m_numLayers t" and c: "cell_defined t L x y z"
  shows "in_cell t L x y z
     (origin (m_gridX t ! L) x, origin (m_gridY t ! L) y, origin (m_gridZ t ! L) z)"
proof -
  have "0 < m_gridX t ! L ! x" "0 < m_gridY t ! L ! y" "0 < m_gridZ t ! L ! z"
    using ok L c unfolding tree_ok_def axis_ok_def cell_defined_def by (metis nth_mem)+
  then show ?thesis by (simp add: in_cell_def in_interval_def)
qed

lemma concat_map_product:
  "concat (map (\<lambda>a. map (f a) ys) xs) = map (\<lambda>(a, b). f a b) (List.product xs ys)"
  by (induction xs) simp_all

lemma children_product:
  "children t L x y z =
     map (\<lambda>a. (fst (getSplit t L) * x + snd (snd a),
               fst (snd (getSplit t L)) * y + fst (snd a),
               snd (snd (getSplit t L)) * z + fst a))
       (List.product [0..<snd (snd (getSplit t L))]
          (List.product [0..<fst (snd (getSplit t L))] [0..<fst (getSplit t L)]))"
proof -
  obtain fx fy fz where g: "getSplit t L = (fx, fy, fz)" by (cases "getSplit t L") auto
  have "concat (map (\<lambda>zz. concat (map (\<lambda>yy. map (\<lambda>xx. (fx * x + xx, fy * y + yy, fz * z + zz))
          [0..<fx]) [0..<fy])) [0..<fz])
      = concat (map (\<lambda>zz. map (\<lambda>(yy, xx). (fx * x + xx, fy * y + yy, fz * z + zz))
          (List.product [0..<fy] [0..<fx])) [0..<fz])"
    by (simp add: concat_map_product)
  also have "\<dots> = map (\<lambda>(zz, yy, xx). (fx * x + xx, fy * y + yy, fz * z + zz))
      (List.product [0..<fz] (List.product [0..<fy] [0..<fx]))"
    using concat_map_product[of "\<lambda>zz (yy, xx). (fx * x + xx, fy * y + yy, fz * z + zz)"
        "List.product [0..<fy] [0..<fx]" "[0..<fz]"]
    by (simp add: case_prod_unfold)
  finally show ?thesis by (simp add: children_def g case_prod_unfold)
qed

lemma propagate_element_flat:
  assumes ok: "tree_ok w h s t" and L: "L + 1 < m_numLayers t" and c: "cell_defined t L x y z"
  shows "propagate_element t L x y z down e =
     fold (\<lambda>c. update_min_max
            (min_e (down ! (fst c + length (m_gridX t ! (L + 1)) *
                (fst (snd c) + length (m_gridY t ! (L + 1)) * snd (snd c)))))
            (max_e (down ! (fst c + length (m_gridX t ! (L + 1)) *
                (fst (snd c) + length (m_gridY t ! (L + 1)) * snd (snd c))))))
       (children t L x y z) e"
proof -
  note lay = tree_ok_layers[OF ok L]
  from c have x: "x < length (m_gridX t ! L)" and y: "y < length (m_gridY t ! L)"
    by (simp_all add: cell_defined_def)
  obtain fx fy fz where g: "getSplit t L = (fx, fy, fz)" by (cases "getSplit t L") auto
  have fx: "fx = length (m_gridX t ! (L + 1)) div length (m_gridX t ! L)"
    and fy: "fy = length (m_gridY t ! (L + 1)) div length (m_gridY t ! L)"
    using g by (simp_all add: getSplit_def)
  have lx: "length (m_gridX t ! L) * fx = length (m_gridX t ! (L + 1))"
    using axis_children(1)[OF lay(4) lay(1) x] fx by (simp add: mult.commute)
  have ly: "length (m_gridY t ! L) * fy = length (m_gridY t ! (L + 1))"
    using axis_children(1)[OF lay(5) lay(2) y] fy by (simp add: mult.commute)
  show ?thesis
    unfolding propagate_element_def Let_def g children_product fold_map fold_product3
    by (simp add: comp_def lx ly case_prod_unfold)
qed

lemma voxel_bounds:
  fixes img :: "'a::len word TypedImage"
  assumes "LENGTH('a) \<le> 16"
  shows "0 \<le> voxel img v" and "voxel img v < 65536"
proof -
  obtain vx vy vz where v: "v = (vx, vy, vz)" by (cases v) auto
  show "0 \<le> voxel img v" by (simp add: v voxel_def)
  have "(2::int) ^ LENGTH('a) \<le> 2 ^ 16" using assms by (intro power_increasing) simp_all
  moreover have "voxel img v < 2 ^ LENGTH('a)" unfolding v voxel_def by (simp add: uint_lt2p)
  ultimately show "voxel img v < 65536" by simp
qed

section \<open>The tree after a completed fill_exact\<close>

lemma fill_Inr_no_abort:
  assumes "0 < m_numLayers t" and "fill_exact img abort t = Inr t'"
  shows "\<forall>k<depth_slices t. \<not> abort k"
proof (rule ccontr)
  assume "\<not> (\<forall>k<depth_slices t. \<not> abort k)"
  then have "\<exists>k<depth_slices t. abort k" by blast
  from fill_aborted[OF assms(1) this, of img] assms(2) show False by auto
qed

lemma cell_index_less:
  assumes ok: "tree_ok w h s t" and L: "L < m_numLayers t" and c: "cell_defined t L x y z"
  shows "x + length (m_gridX t ! L) * (y + length (m_gridY t ! L) * z) < length (m_data t ! L)"
proof -
  from c have x: "x < length (m_gridX t ! L)" and y: "y < length (m_gridY t ! L)"
    and z: "z < length (m_gridZ t ! L)" by (simp_all add: cell_defined_def)
  have "length (m_data t ! L) =
      length (m_gridX t ! L) * length (m_gridY t ! L) * length (m_gridZ t ! L)"
    using ok L by (simp add: tree_ok_def)
  then show ?thesis using index3(5)[OF x y z] by (simp add: ac_simps)
qed

lemma allocated_element:
  assumes ok: "tree_ok w h s t" and L: "L < m_numLayers t" and c: "cell_defined t L x y z"
    and new: "\<forall>l\<in>set (m_data t). \<forall>e\<in>set l. e = OctreeElement_new"
  shows "m_data t ! L ! (x + length (m_gridX t ! L) * (y + length (m_gridY t ! L) * z))
     = OctreeElement_new"
proof -
  have "L < length (m_data t)" using ok L by (simp add: tree_ok_def)
  then have "m_data t ! L \<in> set (m_data t)" by simp
  moreover have "m_data t ! L ! (x + length (m_gridX t ! L) * (y + length (m_gridY t ! L) * z))
      \<in> set (m_data t ! L)"
    using cell_index_less[OF ok L c] by simp
  ultimately show ?thesis using new by blast
qed

lemma fill_layers:
  assumes ok: "tree_ok w h s t" and fl: "fill_exact img abort t = Inr t'"
    and new: "\<forall>l\<in>set (m_data t). \<forall>e\<in>set l. e = OctreeElement_new"
  shows "m_gridX t' = m_gridX t" and "m_gridY t' = m_gridY t" and "m_gridZ t' = m_gridZ t"
    and "m_numLayers t' = m_numLayers t" and "m_usable t'" and "tree_ok w h s t'"
    and "m_min t' = m_min t" and "m_max t' = m_max t"
    and "cell_defined t (m_numLayers t - 1) x y z \<Longrightarrow>
      element_at t' (m_numLayers t - 1) x y z =
        fill_cell_exact img (origin (m_gridX t ! (m_numLayers t - 1)) x)
              (origin (m_gridY t ! (m_numLayers t - 1)) y)
              (origin (m_gridZ t ! (m_numLayers t - 1)) z)
              (m_gridX t ! (m_numLayers t - 1) ! x) (m_gridY t ! (m_numLayers t - 1) ! y)
              (m_gridZ t ! (m_numLayers t - 1) ! z) OctreeElement_new"
    and "L + 1 < m_numLayers t \<Longrightarrow> cell_defined t L x y z \<Longrightarrow>
      element_at t' L x y z =
        fold (\<lambda>c. update_min_max
            (min_e (element_at t' (L + 1) (fst c) (fst (snd c)) (snd (snd c))))
            (max_e (element_at t' (L + 1) (fst c) (fst (snd c)) (snd (snd c)))))
          (children t L x y z) OctreeElement_new"
proof -
  have N: "0 < m_numLayers t" using ok by (simp add: tree_ok_def)
  note na = fill_Inr_no_abort[OF N fl]
  from fill_completed_data[OF ok na, of img] fl obtain data' where
    t': "t' = t\<lparr>m_data := data', m_usable := True\<rparr>"
    and l: "length data' = m_numLayers t"
    and ls: "\<forall>L<m_numLayers t. length (data' ! L) = length (m_data t ! L)"
    and fin: "\<forall>x<length (m_gridX t ! (m_numLayers t - 1)).
        \<forall>y<length (m_gridY t ! (m_numLayers t - 1)).
        \<forall>z<length (m_gridZ t ! (m_numLayers t - 1)).
          data' ! (m_numLayers t - 1) ! (x + length (m_gridX t ! (m_numLayers t - 1)) *
              (y + length (m_gridY t ! (m_numLayers t - 1)) * z)) =
            fill_cell_exact img (origin (m_gridX t ! (m_numLayers t - 1)) x)
              (origin (m_gridY t ! (m_numLayers t - 1)) y)
              (origin (m_gridZ t ! (m_numLayers t - 1)) z)
              (m_gridX t ! (m_numLayers t - 1) ! x) (m_gridY t ! (m_numLayers t - 1) ! y)
              (m_gridZ t ! (m_numLayers t - 1) ! z)
              (m_data t ! (m_numLayers t - 1) ! (x + length (m_gridX t ! (m_numLayers t - 1)) *
              (y + length (m_gridY t ! (m_numLayers t - 1)) * z)))"
    and up: "\<forall>L. L + 1 < m_numLayers t \<longrightarrow>
          (\<forall>x<length (m_gridX t ! L). \<forall>y<length (m_gridY t ! L). \<forall>z<length (m_gridZ t ! L).
             data' ! L ! (x + length (m_gridX t ! L) * (y + length (m_gridY t ! L) * z)) =
               propagate_element t L x y z (data' ! (L + 1))
                 (m_data t ! L ! (x + length (m_gridX t ! L) * (y + length (m_gridY t ! L) * z))))"
    by auto
  show g: "m_gridX t' = m_gridX t" "m_gridY t' = m_gridY t" "m_gridZ t' = m_gridZ t"
    "m_numLayers t' = m_numLayers t" "m_usable t'" "m_min t' = m_min t" "m_max t' = m_max t"
    by (simp_all add: t')
  show "tree_ok w h s t'" using ok l ls by (simp add: tree_ok_def t')
  show "element_at t' (m_numLayers t - 1) x y z =
        fill_cell_exact img (origin (m_gridX t ! (m_numLayers t - 1)) x)
              (origin (m_gridY t ! (m_numLayers t - 1)) y)
              (origin (m_gridZ t ! (m_numLayers t - 1)) z)
              (m_gridX t ! (m_numLayers t - 1) ! x) (m_gridY t ! (m_numLayers t - 1) ! y)
              (m_gridZ t ! (m_numLayers t - 1) ! z) OctreeElement_new"
    if c: "cell_defined t (m_numLayers t - 1) x y z"
  proof -
    have Lf: "m_numLayers t - 1 < m_numLayers t" using N by simp
    from c have "x < length (m_gridX t ! (m_numLayers t - 1))"
      "y < length (m_gridY t ! (m_numLayers t - 1))" "z < length (m_gridZ t ! (m_numLayers t - 1))"
      by (simp_all add: cell_defined_def)
    with fin allocated_element[OF ok Lf c new] show ?thesis
      by (simp add: element_at_def t')
  qed
  show "element_at t' L x y z =
        fold (\<lambda>c. update_min_max
            (min_e (element_at t' (L + 1) (fst c) (fst (snd c)) (snd (snd c))))
            (max_e (element_at t' (L + 1) (fst c) (fst (snd c)) (snd (snd c)))))
          (children t L x y z) OctreeElement_new"
    if L: "L + 1 < m_numLayers t" and c: "cell_defined t L x y z"
  proof -
    have L': "L < m_numLayers t" using L by simp
    from c have "x < length (m_gridX t ! L)" "y < length (m_gridY t ! L)"
      "z < length (m_gridZ t ! L)" by (simp_all add: cell_defined_def)
    with up L allocated_element[OF ok L' c new]
    have "element_at t' L x y z = propagate_element t L x y z (data' ! (L + 1)) OctreeElement_new"
      by (simp add: element_at_def t')
    then show ?thesis
      unfolding propagate_element_flat[OF ok L c] by (simp add: element_at_def t')
  qed
qed

lemma filled_finest:
  fixes img :: "'a::len word TypedImage"
  assumes ok: "tree_ok w h s t" and fl: "fill_exact img abort t = Inr t'"
    and new: "\<forall>l\<in>set (m_data t). \<forall>e\<in>set l. e = OctreeElement_new"
    and len: "LENGTH('a) \<le> 16"
    and c: "cell_defined t (m_numLayers t - 1) x y z"
  shows "summarised (voxel img) t' (m_numLayers t - 1) x y z"
proof -
  let ?L = "m_numLayers t - 1"
  let ?ox = "origin (m_gridX t ! ?L) x" and ?oy = "origin (m_gridY t ! ?L) y"
    and ?oz = "origin (m_gridZ t ! ?L) z"
  let ?sx = "m_gridX t ! ?L ! x" and ?sy = "m_gridY t ! ?L ! y" and ?sz = "m_gridZ t ! ?L ! z"
  let ?e = "fill_cell_exact img ?ox ?oy ?oz ?sx ?sy ?sz OctreeElement_new"
  have N: "?L < m_numLayers t" using ok by (simp add: tree_ok_def)
  have e: "element_at t' ?L x y z = ?e" using fill_layers(9)[OF ok fl new c] .
  have ic: "in_cell t' ?L x y z = in_cell t ?L x y z"
    using fill_layers(1,2,3)[OF ok fl new] by (simp add: in_cell_def fun_eq_iff)
  have A: "min_e ?e \<le> voxel img v \<and> voxel img v \<le> max_e ?e" if "in_cell t ?L x y z v" for v
  proof -
    obtain vx vy vz where v: "v = (vx, vy, vz)" by (cases v) auto
    from that show ?thesis unfolding v in_cell_def in_interval_def
      using fill_cell_bounds[of ?ox vx ?sx ?oy vy ?sy ?oz vz ?sz img OctreeElement_new] by simp
  qed
  note v0 = cell_nonempty[OF ok N c]
  have Bmin: "\<exists>v. in_cell t ?L x y z v \<and> voxel img v = min_e ?e"
  proof -
    have "min_e ?e \<noteq> min_e OctreeElement_new"
      using A[OF v0] voxel_bounds(2)[OF len, of img "(?ox, ?oy, ?oz)"]
      by (simp add: OctreeElement_new_def INT_MAX_def)
    with fill_cell_min_attained[of img ?ox ?oy ?oz ?sx ?sy ?sz OctreeElement_new]
    obtain vx vy vz where "?ox \<le> vx \<and> vx < ?ox + ?sx \<and> ?oy \<le> vy \<and> vy < ?oy + ?sy
        \<and> ?oz \<le> vz \<and> vz < ?oz + ?sz \<and> min_e ?e = voxel img (vx, vy, vz)"
      by blast
    then show ?thesis
      by (intro exI[of _ "(vx, vy, vz)"]) (simp add: in_cell_def in_interval_def)
  qed
  have Bmax: "\<exists>v. in_cell t ?L x y z v \<and> voxel img v = max_e ?e"
  proof -
    have "max_e ?e \<noteq> max_e OctreeElement_new"
      using A[OF v0] voxel_bounds(1)[OF len, of img "(?ox, ?oy, ?oz)"]
      by (simp add: OctreeElement_new_def INT_MIN_def)
    with fill_cell_max_attained[of img ?ox ?oy ?oz ?sx ?sy ?sz OctreeElement_new]
    obtain vx vy vz where "?ox \<le> vx \<and> vx < ?ox + ?sx \<and> ?oy \<le> vy \<and> vy < ?oy + ?sy
        \<and> ?oz \<le> vz \<and> vz < ?oz + ?sz \<and> max_e ?e = voxel img (vx, vy, vz)"
      by blast
    then show ?thesis
      by (intro exI[of _ "(vx, vy, vz)"]) (simp add: in_cell_def in_interval_def)
  qed
  show ?thesis unfolding summarised_def e ic using A Bmin Bmax by blast
qed

lemma filled_parent_child:
  assumes ok: "tree_ok w h s t" and fl: "fill_exact img abort t = Inr t'"
    and new: "\<forall>l\<in>set (m_data t). \<forall>e\<in>set l. e = OctreeElement_new"
    and L: "L + 1 < m_numLayers t" and c: "cell_defined t L x y z"
    and m: "(cx, cy, cz) \<in> set (children t L x y z)"
  shows "min_e (element_at t' L x y z) \<le> min_e (element_at t' (L + 1) cx cy cz)"
    and "max_e (element_at t' (L + 1) cx cy cz) \<le> max_e (element_at t' L x y z)"
proof -
  let ?lo = "\<lambda>c. min_e (element_at t' (L + 1) (fst c) (fst (snd c)) (snd (snd c)))"
  let ?hi = "\<lambda>c. max_e (element_at t' (L + 1) (fst c) (fst (snd c)) (snd (snd c)))"
  note e = fill_layers(10)[OF ok fl new L c]
  show "min_e (element_at t' L x y z) \<le> min_e (element_at t' (L + 1) cx cy cz)"
    unfolding e using fold_update_min_le[of ?lo ?hi "children t L x y z" OctreeElement_new] m
    by fastforce
  show "max_e (element_at t' (L + 1) cx cy cz) \<le> max_e (element_at t' L x y z)"
    unfolding e using fold_update_max_ge[of OctreeElement_new ?lo ?hi "children t L x y z"] m
    by fastforce
qed

lemma filled_parent_attained:
  assumes ok: "tree_ok w h s t" and fl: "fill_exact img abort t = Inr t'"
    and new: "\<forall>l\<in>set (m_data t). \<forall>e\<in>set l. e = OctreeElement_new"
    and L: "L + 1 < m_numLayers t" and c: "cell_defined t L x y z"
  shows "min_e (element_at t' L x y z) = INT_MAX
      \<or> (\<exists>c\<in>set (children t L x y z). min_e (element_at t' L x y z) =
            min_e (element_at t' (L + 1) (fst c) (fst (snd c)) (snd (snd c))))"
    and "max_e (element_at t' L x y z) = INT_MIN
      \<or> (\<exists>c\<in>set (children t L x y z). max_e (element_at t' L x y z) =
            max_e (element_at t' (L + 1) (fst c) (fst (snd c)) (snd (snd c))))"
proof -
  let ?lo = "\<lambda>c. min_e (element_at t' (L + 1) (fst c) (fst (snd c)) (snd (snd c)))"
  let ?hi = "\<lambda>c. max_e (element_at t' (L + 1) (fst c) (fst (snd c)) (snd (snd c)))"
  note e = fill_layers(10)[OF ok fl new L c]
  show "min_e (element_at t' L x y z) = INT_MAX
      \<or> (\<exists>c\<in>set (children t L x y z). min_e (element_at t' L x y z) = ?lo c)"
    unfolding e using fold_update_min_attained[of ?lo ?hi "children t L x y z" OctreeElement_new]
    by (simp add: OctreeElement_new_def)
  show "max_e (element_at t' L x y z) = INT_MIN
      \<or> (\<exists>c\<in>set (children t L x y z). max_e (element_at t' L x y z) = ?hi c)"
    unfolding e using fold_update_max_attained[of ?lo ?hi "children t L x y z" OctreeElement_new]
    by (simp add: OctreeElement_new_def)
qed

lemma filled_summarised:
  fixes img :: "'a::len word TypedImage"
  assumes ok: "tree_ok w h s t" and fl: "fill_exact img abort t = Inr t'"
    and new: "\<forall>l\<in>set (m_data t). \<forall>e\<in>set l. e = OctreeElement_new"
    and len: "LENGTH('a) \<le> 16"
  shows "L + k + 1 = m_numLayers t \<Longrightarrow> cell_defined t L x y z \<Longrightarrow>
     summarised (voxel img) t' L x y z"
proof (induction k arbitrary: L x y z)
  case 0
  then have "L = m_numLayers t - 1" by simp
  with filled_finest[OF ok fl new len] 0 show ?case by simp
next
  case (Suc k)
  have L: "L + 1 < m_numLayers t" using Suc.prems(1) by simp
  note c = Suc.prems(2)
  have ic: "in_cell t' = in_cell t"
    using fill_layers(1,2,3)[OF ok fl new] by (simp add: in_cell_def fun_eq_iff)
  have child: "summarised (voxel img) t' (L + 1) cx cy cz"
    if "(cx, cy, cz) \<in> set (children t L x y z)" for cx cy cz
    using Suc.IH[of "L + 1" cx cy cz] Suc.prems(1) children_in_range[OF ok L c that] by simp
  let ?e = "element_at t' L x y z"
  have A: "min_e ?e \<le> voxel img v \<and> voxel img v \<le> max_e ?e" if "in_cell t L x y z v" for v
  proof -
    from that in_cell_children[OF ok L c, of v] obtain cx cy cz where
      m: "(cx, cy, cz) \<in> set (children t L x y z)" and v: "in_cell t (L + 1) cx cy cz v"
      by auto
    from child[OF m] v have "min_e (element_at t' (L + 1) cx cy cz) \<le> voxel img v"
      "voxel img v \<le> max_e (element_at t' (L + 1) cx cy cz)"
      unfolding summarised_def ic by blast+
    with filled_parent_child[OF ok fl new L c m] show ?thesis by linarith
  qed
  from children_nonempty[OF ok L c] obtain c0 where c0: "c0 \<in> set (children t L x y z)"
    by (cases "children t L x y z") auto
  obtain c0x c0y c0z where c0e: "c0 = (c0x, c0y, c0z)" by (cases c0) auto
  from child[OF c0[unfolded c0e]] obtain v0 v1 where
    v0: "in_cell t (L + 1) c0x c0y c0z v0" "voxel img v0 = min_e (element_at t' (L + 1) c0x c0y c0z)"
    and v1: "in_cell t (L + 1) c0x c0y c0z v1" "voxel img v1 = max_e (element_at t' (L + 1) c0x c0y c0z)"
    unfolding summarised_def ic by blast
  have Bmin: "\<exists>v. in_cell t L x y z v \<and> voxel img v = min_e ?e"
  proof -
    have "min_e ?e \<le> voxel img v0"
      using filled_parent_child(1)[OF ok fl new L c c0[unfolded c0e]] v0(2) by simp
    then have "min_e ?e \<noteq> INT_MAX"
      using voxel_bounds(2)[OF len, of img v0] by (simp add: INT_MAX_def)
    with filled_parent_attained(1)[OF ok fl new L c] obtain cc where
      cc: "cc \<in> set (children t L x y z)"
        "min_e ?e = min_e (element_at t' (L + 1) (fst cc) (fst (snd cc)) (snd (snd cc)))"
      by blast
    have m: "(fst cc, fst (snd cc), snd (snd cc)) \<in> set (children t L x y z)" using cc(1) by simp
    from child[OF m] obtain v where
      v: "in_cell t (L + 1) (fst cc) (fst (snd cc)) (snd (snd cc)) v"
        "voxel img v = min_e (element_at t' (L + 1) (fst cc) (fst (snd cc)) (snd (snd cc)))"
      unfolding summarised_def ic by blast
    have "in_cell t L x y z v" using in_cell_children[OF ok L c, of v] m v(1) by blast
    with v(2) cc(2) show ?thesis by (intro exI[of _ v]) simp
  qed
  have Bmax: "\<exists>v. in_cell t L x y z v \<and> voxel img v = max_e ?e"
  proof -
    have "voxel img v1 \<le> max_e ?e"
      using filled_parent_child(2)[OF ok fl new L c c0[unfolded c0e]] v1(2) by simp
    then have "max_e ?e \<noteq> INT_MIN"
      using voxel_bounds(1)[OF len, of img v1] by (simp add: INT_MIN_def)
    with filled_parent_attained(2)[OF ok fl new L c] obtain cc where
      cc: "cc \<in> set (children t L x y z)"
        "max_e ?e = max_e (element_at t' (L + 1) (fst cc) (fst (snd cc)) (snd (snd cc)))"
      by blast
    have m: "(fst cc, fst (snd cc), snd (snd cc)) \<in> set (children t L x y z)" using cc(1) by simp
    from child[OF m] obtain v where
      v: "in_cell t (L + 1) (fst cc) (fst (snd cc)) (snd (snd cc)) v"
        "voxel img v = max_e (element_at t' (L + 1) (fst cc) (fst (snd cc)) (snd (snd cc)))"
      unfolding summarised_def ic by blast
    have "in_cell t L x y z v" using in_cell_children[OF ok L c, of v] m v(1) by blast
    with v(2) cc(2) show ?thesis by (intro exI[of _ v]) simp
  qed
  show ?case unfolding summarised_def ic using A Bmin Bmax by blast
qed

lemma filled_aggregated:
  fixes img :: "'a::len word TypedImage"
  assumes ok: "tree_ok w h s t" and fl: "fill_exact img abort t = Inr t'"
    and new: "\<forall>l\<in>set (m_data t). \<forall>e\<in>set l. e = OctreeElement_new"
    and len: "LENGTH('a) \<le> 16"
    and L: "L + 1 < m_numLayers t" and c: "cell_defined t L x y z"
  shows "aggregated t' L x y z"
proof -
  let ?cs = "children t L x y z"
  let ?e = "element_at t' L x y z"
  let ?lo = "\<lambda>(cx, cy, cz). min_e (element_at t' (L + 1) cx cy cz)"
  let ?hi = "\<lambda>(cx, cy, cz). max_e (element_at t' (L + 1) cx cy cz)"
  have ch: "children t' = children t"
    using fill_layers(1,2,3)[OF ok fl new] by (simp add: children_def getSplit_def fun_eq_iff)
  note ne = children_nonempty[OF ok L c]
  have sm: "summarised (voxel img) t' (L + 1) cx cy cz"
    if "(cx, cy, cz) \<in> set ?cs" for cx cy cz
  proof -
    have "(L + 1) + (m_numLayers t - L - 2) + 1 = m_numLayers t" using L by simp
    from filled_summarised[OF ok fl new len this children_in_range[OF ok L c that]]
    show ?thesis .
  qed
  from ne obtain c0 where c0: "c0 \<in> set ?cs" by (cases ?cs) auto
  obtain c0x c0y c0z where c0e: "c0 = (c0x, c0y, c0z)" by (cases c0) auto
  from sm[OF c0[unfolded c0e]] obtain v0 v1 where
    v0: "voxel img v0 = min_e (element_at t' (L + 1) c0x c0y c0z)"
    and v1: "voxel img v1 = max_e (element_at t' (L + 1) c0x c0y c0z)"
    unfolding summarised_def by blast
  have mn: "min_e ?e = Min (set (map ?lo ?cs))"
  proof (rule Min_eqI[symmetric])
    show "finite (set (map ?lo ?cs))" by simp
    show "min_e ?e \<le> y" if "y \<in> set (map ?lo ?cs)" for y
      using that filled_parent_child(1)[OF ok fl new L c] by auto
    have "min_e ?e \<le> voxel img v0"
      using filled_parent_child(1)[OF ok fl new L c c0[unfolded c0e]] v0 by simp
    then have "min_e ?e \<noteq> INT_MAX"
      using voxel_bounds(2)[OF len, of img v0] by (simp add: INT_MAX_def)
    with filled_parent_attained(1)[OF ok fl new L c]
    show "min_e ?e \<in> set (map ?lo ?cs)" by (auto simp: case_prod_unfold)
  qed
  have mx: "max_e ?e = Max (set (map ?hi ?cs))"
  proof (rule Max_eqI[symmetric])
    show "finite (set (map ?hi ?cs))" by simp
    show "y \<le> max_e ?e" if "y \<in> set (map ?hi ?cs)" for y
      using that filled_parent_child(2)[OF ok fl new L c] by auto
    have "voxel img v1 \<le> max_e ?e"
      using filled_parent_child(2)[OF ok fl new L c c0[unfolded c0e]] v1 by simp
    then have "max_e ?e \<noteq> INT_MIN"
      using voxel_bounds(1)[OF len, of img v1] by (simp add: INT_MIN_def)
    with filled_parent_attained(2)[OF ok fl new L c]
    show "max_e ?e \<in> set (map ?hi ?cs)" by (auto simp: case_prod_unfold)
  qed
  show ?thesis unfolding aggregated_def ch using ne mn mx by simp
qed

lemma fill_Inl_not_usable:
  assumes "0 < m_numLayers t" and "fill_exact img abort t = Inl (exn, t')"
  shows "\<not> m_usable t'"
proof (cases "\<exists>k<depth_slices t. abort k")
  case True
  from fill_aborted[OF assms(1) True, of img] assms(2) show ?thesis by auto
next
  case False
  then have "\<forall>k<depth_slices t. \<not> abort k" by blast
  from fill_completed[OF assms(1) this, of img] assms(2) show ?thesis by auto
qed

lemma setImage_try_typed:
  assumes N: "0 < m_numLayers ta" and u: "m_usable (setImage_try_exact mi abort ta)"
    and v: "voxels_of mi = Some val"
  shows "(\<exists>im. mi = UShortImage im \<and> val = voxel im \<and> fill_exact im abort ta = Inr (setImage_try_exact mi abort ta))
     \<or> (\<exists>im. mi = UByteImage im \<and> val = voxel im \<and> fill_exact im abort ta = Inr (setImage_try_exact mi abort ta))"
proof (cases mi)
  case (UShortImage im)
  show ?thesis
  proof (cases "fill_exact im abort ta")
    case (Inl a)
    obtain exn t' where a: "a = (exn, t')" by (cases a) auto
    from fill_Inl_not_usable[OF N Inl[unfolded a]] u show ?thesis
      by (simp add: setImage_try_exact_def UShortImage Inl a)
  next
    case (Inr t')
    have "m_usable t'" using fill_completed[OF N fill_Inr_no_abort[OF N Inr], of im] Inr by auto
    then have "t'\<lparr>m_usable := True\<rparr> = t'" by simp
    then show ?thesis using v by (simp add: setImage_try_exact_def UShortImage Inr voxels_of_def)
  qed
next
  case (UByteImage im)
  show ?thesis
  proof (cases "fill_exact im abort ta")
    case (Inl a)
    obtain exn t' where a: "a = (exn, t')" by (cases a) auto
    from fill_Inl_not_usable[OF N Inl[unfolded a]] u show ?thesis
      by (simp add: setImage_try_exact_def UByteImage Inl a)
  next
    case (Inr t')
    have "m_usable t'" using fill_completed[OF N fill_Inr_no_abort[OF N Inr], of im] Inr by auto
    then have "t'\<lparr>m_usable := True\<rparr> = t'" by simp
    then show ?thesis using v by (simp add: setImage_try_exact_def UByteImage Inr voxels_of_def)
  qed
next
  case (OtherImage im)
  then show ?thesis using v by (simp add: voxels_of_def)
qed

text \<open>What holds of a tree that \<^verbatim>\<open>setImage\<close> has built and filled.\<close>

lemma setImage_exact_filled:
  assumes dims: "0 < image_width mi" "0 < image_height mi" "0 < image_slices mi"
    and m: "1 \<le> minCubeSize"
    and v: "voxels_of mi = Some val"
    and st: "setImage_exact mi abort (Octree_new minCubeSize n0) = Some t"
    and u: "isUsable t"
  shows "tree_ok (image_width mi) (image_height mi) (image_slices mi) t"
    and "m_min t = INT_MIN" and "m_max t = INT_MAX"
    and "L < m_numLayers t \<Longrightarrow> cell_defined t L x y z \<Longrightarrow> summarised val t L x y z"
    and "L + 1 < m_numLayers t \<Longrightarrow> cell_defined t L x y z \<Longrightarrow> aggregated t L x y z"
proof -
  have m0: "0 < minCubeSize" using m by simp
  from setImage_allocate_shape[OF dims m0, of n0] obtain ta where
    ta: "setImage_allocate mi (Octree_new minCubeSize n0) = Some ta"
    and ok: "tree_ok (image_width mi) (image_height mi) (image_slices mi) ta"
    and new: "\<forall>l\<in>set (m_data ta). \<forall>e\<in>set l. e = OctreeElement_new"
    and mm: "m_min ta = INT_MIN" "m_max ta = INT_MAX"
    by blast
  have t: "t = setImage_try_exact mi abort ta" using st ta by (simp add: setImage_exact_def)
  have N: "0 < m_numLayers ta" using ok by (simp add: tree_ok_def)
  have ut: "m_usable (setImage_try_exact mi abort ta)" using u t by (simp add: isUsable_def)
  have "tree_ok (image_width mi) (image_height mi) (image_slices mi) t
     \<and> m_min t = INT_MIN \<and> m_max t = INT_MAX
     \<and> (L < m_numLayers t \<longrightarrow> cell_defined t L x y z \<longrightarrow> summarised val t L x y z)
     \<and> (L + 1 < m_numLayers t \<longrightarrow> cell_defined t L x y z \<longrightarrow> aggregated t L x y z)"
    using setImage_try_typed[OF N ut v]
  proof (elim disjE exE conjE)
    fix im :: "16 word TypedImage"
    assume val: "val = voxel im" and fl: "fill_exact im abort ta = Inr (setImage_try_exact mi abort ta)"
    note f = fill_layers[OF ok fl[folded t] new]
    have cd: "cell_defined t = cell_defined ta"
      using f(1,2,3) by (simp add: cell_defined_def fun_eq_iff)
    have len: "LENGTH(16) \<le> 16" by simp
    have s: "summarised val t L x y z" if "L < m_numLayers t" "cell_defined t L x y z"
    proof -
      have "L + (m_numLayers ta - L - 1) + 1 = m_numLayers ta" using that(1) f(4) by simp
      from filled_summarised[OF ok fl[folded t] new len this that(2)[unfolded cd]]
      show ?thesis by (simp add: val)
    qed
    have a: "aggregated t L x y z" if "L + 1 < m_numLayers t" "cell_defined t L x y z"
      using filled_aggregated[OF ok fl[folded t] new len that(1)[unfolded f(4)] that(2)[unfolded cd]] .
    show ?thesis using f(6,7,8) mm s a by simp
  next
    fix im :: "8 word TypedImage"
    assume val: "val = voxel im" and fl: "fill_exact im abort ta = Inr (setImage_try_exact mi abort ta)"
    note f = fill_layers[OF ok fl[folded t] new]
    have cd: "cell_defined t = cell_defined ta"
      using f(1,2,3) by (simp add: cell_defined_def fun_eq_iff)
    have len: "LENGTH(8) \<le> 16" by simp
    have s: "summarised val t L x y z" if "L < m_numLayers t" "cell_defined t L x y z"
    proof -
      have "L + (m_numLayers ta - L - 1) + 1 = m_numLayers ta" using that(1) f(4) by simp
      from filled_summarised[OF ok fl[folded t] new len this that(2)[unfolded cd]]
      show ?thesis by (simp add: val)
    qed
    have a: "aggregated t L x y z" if "L + 1 < m_numLayers t" "cell_defined t L x y z"
      using filled_aggregated[OF ok fl[folded t] new len that(1)[unfolded f(4)] that(2)[unfolded cd]] .
    show ?thesis using f(6,7,8) mm s a by simp
  qed
  then show "tree_ok (image_width mi) (image_height mi) (image_slices mi) t"
    and "m_min t = INT_MIN" and "m_max t = INT_MAX"
    and "L < m_numLayers t \<Longrightarrow> cell_defined t L x y z \<Longrightarrow> summarised val t L x y z"
    and "L + 1 < m_numLayers t \<Longrightarrow> cell_defined t L x y z \<Longrightarrow> aggregated t L x y z"
    by blast+
qed



section \<open>The fill when it gives a result\<close>

lemma fold_option_None:
  assumes "\<And>x. g x None = None"
  shows "fold g xs None = None"
  by (induction xs) (simp_all add: assms)

lemma fold_option_exact:
  assumes n: "\<And>x. g x None = None"
    and e: "\<And>x s r. g x (Some s) = Some r \<Longrightarrow> r = f x s"
  shows "fold g xs (Some s) = Some r \<Longrightarrow> r = fold f xs s"
proof (induction xs arbitrary: s)
  case Nil
  then show ?case by simp
next
  case (Cons x xs)
  show ?case
  proof (cases "g x (Some s)")
    case None
    with Cons.prems show ?thesis by (simp add: fold_option_None[of g, OF n])
  next
    case (Some s')
    with Cons.prems have "fold g xs (Some s') = Some r" by simp
    from Cons.IH[OF this] e[OF Some] show ?thesis by simp
  qed
qed

lemma read_voxel_exact:
  "read_voxel img px py pz xx yy zz = Some v \<Longrightarrow>
   v = uint (pointer img ! nat (px + xx + width img * (py + yy + height img * (pz + zz))))"
  by (simp add: read_voxel_def Let_def split: if_splits)

lemma fill_cell_exact:
  assumes "fill_cell img px py pz sx sy sz e = Some r"
  shows "r = fill_cell_exact img px py pz sx sy sz e"
proof -
  let ?g = "\<lambda>zz yy xx st. case st of None \<Rightarrow> None
     | Some element' \<Rightarrow>
        (case read_voxel img px py pz (int xx) (int yy) (int zz) of
           None \<Rightarrow> None
         | Some value \<Rightarrow> Some (update_min_max value value element'))"
  let ?f = "\<lambda>zz yy xx element.
         let value = uint (pointer img !
               nat (px + int xx + width img * (py + int yy + height img * (pz + int zz))))
         in update_min_max value value element"
  have n1: "?g zz yy xx None = None" for zz yy xx by simp
  have e1: "?g zz yy xx (Some s) = Some r \<Longrightarrow> r = ?f zz yy xx s" for zz yy xx s r
    by (auto simp: Let_def split: option.splits dest: read_voxel_exact)
  have n2: "fold (?g zz yy) xs None = None" for zz yy xs
    by (rule fold_option_None) simp
  have e2: "fold (?g zz yy) xs (Some s) = Some r \<Longrightarrow> r = fold (?f zz yy) xs s" for zz yy xs s r
    by (rule fold_option_exact[where g = "?g zz yy", OF n1 e1])
  have n3: "fold (\<lambda>yy. fold (?g zz yy) xs) ys None = None" for zz xs ys
    by (rule fold_option_None) (rule n2)
  have e3: "fold (\<lambda>yy. fold (?g zz yy) xs) ys (Some s) = Some r
      \<Longrightarrow> r = fold (\<lambda>yy. fold (?f zz yy) xs) ys s" for zz xs ys s r
    by (rule fold_option_exact[where g = "\<lambda>yy. fold (?g zz yy) xs", OF n2 e2])
  have e4: "fold (\<lambda>zz. fold (\<lambda>yy. fold (?g zz yy) xs) ys) zs (Some s) = Some r
      \<Longrightarrow> r = fold (\<lambda>zz. fold (\<lambda>yy. fold (?f zz yy) xs) ys) zs s" for xs ys zs s r
    by (rule fold_option_exact[where g = "\<lambda>zz. fold (\<lambda>yy. fold (?g zz yy) xs) ys", OF n3 e3])
  show ?thesis
    using assms unfolding fill_cell_def fill_cell_exact_def by (rule e4)
qed

lemma fill_x_None [simp]: "fill_x img lx sy sz py pz x None = None"
  by (simp add: fill_x_def)

lemma fill_y_None [simp]: "fill_y img lx ly sz pz y None = None"
  by (simp add: fill_y_def)

lemma fill_z_None [simp]: "fill_z img lx ly lz z None = None"
  by (simp add: fill_z_def)

lemma fill_x_exact:
  assumes "fill_x img lx sy sz py pz x (Some s) = Some r"
  shows "r = fill_x_exact img lx sy sz py pz x s"
  using assms
  by (cases s) (auto simp: fill_x_def fill_x_exact_def split: option.splits dest: fill_cell_exact)

lemma fill_y_exact:
  assumes "fill_y img lx ly sz pz y (Some s) = Some r"
  shows "r = fill_y_exact img lx ly sz pz y s"
proof -
  obtain pos py els where s: "s = (pos, py, els)" by (cases s) auto
  from assms obtain pos' px els' where
    f: "fold (fill_x img lx (ly ! y) sz py pz) [0..<length lx] (Some (pos, 0, els)) = Some (pos', px, els')"
    and r: "r = (pos', py + ly ! y, els')"
    by (auto simp: fill_y_def s split: option.splits)
  have "(pos', px, els') = fold (fill_x_exact img lx (ly ! y) sz py pz) [0..<length lx] (pos, 0, els)"
    by (rule fold_option_exact[where g = "fill_x img lx (ly ! y) sz py pz", OF fill_x_None fill_x_exact f])
  from this[symmetric] show ?thesis using r s by (simp add: fill_y_exact_def)
qed

lemma fill_z_exact:
  assumes "fill_z img lx ly lz z (Some s) = Some r"
  shows "r = fill_z_exact img lx ly lz z s"
proof -
  obtain pos pz els where s: "s = (pos, pz, els)" by (cases s) auto
  from assms obtain pos' py els' where
    f: "fold (fill_y img lx ly (lz ! z) pz) [0..<length ly] (Some (pos, 0, els)) = Some (pos', py, els')"
    and r: "r = (pos', pz + lz ! z, els')"
    by (auto simp: fill_z_def s split: option.splits)
  have "(pos', py, els') = fold (fill_y_exact img lx ly (lz ! z) pz) [0..<length ly] (pos, 0, els)"
    by (rule fold_option_exact[where g = "fill_y img lx ly (lz ! z) pz", OF fill_y_None fill_y_exact f])
  from this[symmetric] show ?thesis using r s by (simp add: fill_z_exact_def)
qed

lemma slices_loop_None:
  assumes "\<And>z. g z None = None"
  shows "(\<exists>r. slices_loop abort g zs (reads, None) = Inl (r, None))
       \<or> (\<exists>r. slices_loop abort g zs (reads, None) = Inr (r, None))"
  by (induction zs arbitrary: reads) (simp_all add: assms)

lemma slices_loop_exact:
  assumes n: "\<And>z. g z None = None"
    and e: "\<And>z s r. g z (Some s) = Some r \<Longrightarrow> r = f z s"
  shows "slices_loop abort g zs (reads, Some s) = Inl (r, Some s') \<Longrightarrow>
           slices_loop abort f zs (reads, s) = Inl (r, s')"
    and "slices_loop abort g zs (reads, Some s) = Inr (r, Some s') \<Longrightarrow>
           slices_loop abort f zs (reads, s) = Inr (r, s')"
proof (induction zs arbitrary: reads s)
  case Nil
  { case 1 then show ?case by simp }
  { case 2 then show ?case by simp }
next
  case (Cons z zs)
  { case 1
    show ?case
    proof (cases "abort reads")
      case True with 1 show ?thesis by simp
    next
      case False
      show ?thesis
      proof (cases "g z (Some s)")
        case None
        with 1 False slices_loop_None[of g abort zs "reads + 1", OF n] show ?thesis by auto
      next
        case (Some s1)
        with 1 False have "slices_loop abort g zs (reads + 1, Some s1) = Inl (r, Some s')" by simp
        from Cons.IH(1)[OF this] e[OF Some] False show ?thesis by simp
      qed
    qed }
  { case 2
    show ?case
    proof (cases "abort reads")
      case True with 2 show ?thesis by simp
    next
      case False
      show ?thesis
      proof (cases "g z (Some s)")
        case None
        with 2 False slices_loop_None[of g abort zs "reads + 1", OF n] show ?thesis by auto
      next
        case (Some s1)
        with 2 False have "slices_loop abort g zs (reads + 1, Some s1) = Inr (r, Some s')" by simp
        from Cons.IH(2)[OF this] e[OF Some] False show ?thesis by simp
      qed
    qed }
qed

lemma fill_exact:
  assumes "fill img abort t = Some r"
  shows "r = fill_exact img abort t"
proof -
  let ?t = "t\<lparr>m_usable := False\<rparr>"
  let ?last = "m_numLayers t - 1"
  let ?lx = "m_gridX t ! ?last" and ?ly = "m_gridY t ! ?last" and ?lz = "m_gridZ t ! ?last"
  have ex: "slices_loop abort (fill_z img ?lx ?ly ?lz) zs (reads, Some s) = Inl (r, Some s') \<Longrightarrow>
           slices_loop abort (fill_z_exact img ?lx ?ly ?lz) zs (reads, s) = Inl (r, s')"
    "slices_loop abort (fill_z img ?lx ?ly ?lz) zs (reads, Some s) = Inr (r, Some s') \<Longrightarrow>
           slices_loop abort (fill_z_exact img ?lx ?ly ?lz) zs (reads, s) = Inr (r, s')"
    for zs reads s r s'
  proof -
    show "slices_loop abort (fill_z img ?lx ?ly ?lz) zs (reads, Some s) = Inl (r, Some s') \<Longrightarrow>
           slices_loop abort (fill_z_exact img ?lx ?ly ?lz) zs (reads, s) = Inl (r, s')"
      by (rule slices_loop_exact(1)[where g = "fill_z img ?lx ?ly ?lz"]) (simp, rule fill_z_exact)
    show "slices_loop abort (fill_z img ?lx ?ly ?lz) zs (reads, Some s) = Inr (r, Some s') \<Longrightarrow>
           slices_loop abort (fill_z_exact img ?lx ?ly ?lz) zs (reads, s) = Inr (r, s')"
      by (rule slices_loop_exact(2)[where g = "fill_z img ?lx ?ly ?lz"]) (simp, rule fill_z_exact)
  qed
  show ?thesis
  proof (cases "slices_loop abort (fill_z img ?lx ?ly ?lz) [0..<length ?lz]
                (0, Some (0, 0, m_data t ! ?last))")
    case (Inl a)
    then obtain reads pos pz els where a: "a = (reads, Some (pos, pz, els))"
      using assms by (cases a) (auto simp: fill_def Let_def split: option.splits)
    from ex(1)[OF Inl[unfolded a]] assms Inl a show ?thesis
      by (simp add: fill_def fill_exact_def Let_def)
  next
    case (Inr b)
    then obtain reads pos pz els where b: "b = (reads, Some (pos, pz, els))"
      using assms by (cases b) (auto simp: fill_def Let_def split: option.splits)
    from ex(2)[OF Inr[unfolded b]] assms Inr b show ?thesis
      by (auto simp: fill_def fill_exact_def Let_def split: sum.splits prod.splits)
  qed
qed

lemma setImage_try_exact:
  assumes "setImage_try mi abort t = Some t'"
  shows "setImage_try_exact mi abort t = t'"
  using assms
  by (cases mi)
     (auto simp: setImage_try_def setImage_try_exact_def split: option.splits sum.splits prod.splits
        dest!: fill_exact)

lemma setImage_exact:
  assumes "setImage mi abort t0 = Some t"
  shows "setImage_exact mi abort t0 = Some t"
  using assms
  by (auto simp: setImage_def setImage_exact_def split: option.splits dest: setImage_try_exact)

lemma setImage_filled:
  assumes dims: "0 < image_width mi" "0 < image_height mi" "0 < image_slices mi"
    and m: "1 \<le> minCubeSize"
    and v: "voxels_of mi = Some val"
    and st: "setImage mi abort (Octree_new minCubeSize n0) = Some t"
    and u: "isUsable t"
  shows "tree_ok (image_width mi) (image_height mi) (image_slices mi) t"
    and "m_min t = INT_MIN" and "m_max t = INT_MAX"
    and "L < m_numLayers t \<Longrightarrow> cell_defined t L x y z \<Longrightarrow> summarised val t L x y z"
    and "L + 1 < m_numLayers t \<Longrightarrow> cell_defined t L x y z \<Longrightarrow> aggregated t L x y z"
  using setImage_exact_filled[OF dims m v setImage_exact[OF st] u] by blast+

section \<open>Cancellation\<close>

lemma slices_loop_prefix:
  assumes "\<forall>j<k. \<not> abort (reads + j)" and "k \<le> length zs"
    and "k < length zs \<longrightarrow> abort (reads + k)"
  shows "slices_loop abort body zs (reads, st) =
     (if k < length zs then Inl (reads + k, fold body (take k zs) st)
      else Inr (reads + k, fold body (take k zs) st))"
  using assms
proof (induction zs arbitrary: k reads st)
  case Nil
  then show ?case by simp
next
  case (Cons z zs)
  show ?case
  proof (cases k)
    case 0
    with Cons.prems show ?thesis by simp
  next
    case (Suc k')
    have na: "\<not> abort reads" using Cons.prems(1) Suc by (metis add.right_neutral zero_less_Suc)
    have a: "\<forall>j<k'. \<not> abort (reads + 1 + j)"
    proof (intro allI impI)
      fix j assume "j < k'"
      then have "Suc j < k" using Suc by simp
      from Cons.prems(1)[rule_format, OF this] show "\<not> abort (reads + 1 + j)" by simp
    qed
    have b: "k' \<le> length zs" "k' < length zs \<longrightarrow> abort (reads + 1 + k')"
      using Cons.prems(2,3) Suc by simp_all
    from Cons.IH[OF a b, of "body z st"] na Suc show ?thesis by simp
  qed
qed

lemma propagate_slices_0 [simp]: "propagate_slices t layers 0 data = data"
  by (induction layers arbitrary: data) simp_all

lemma propagate_layers_prefix:
  assumes "\<forall>j<k. \<not> abort (reads + j)" and "k \<le> layer_slices t layers"
    and "k < layer_slices t layers \<longrightarrow> abort (reads + k)"
  shows "propagate_layers abort t layers (reads, data) =
     (if k < layer_slices t layers then Inl (reads + k, propagate_slices t layers k data)
      else Inr (reads + k, propagate_slices t layers k data))"
  using assms
proof (induction layers arbitrary: k reads data)
  case Nil
  then show ?case by (simp add: layer_slices_def)
next
  case (Cons layer layers)
  let ?n = "length (m_gridZ t ! layer)"
  have ls: "layer_slices t (layer # layers) = ?n + layer_slices t layers"
    by (simp add: layer_slices_def)
  obtain pos d where f: "fold (propagate_z t layer) [0..<min k ?n] (0, data) = (pos, d)"
    by fastforce
  show ?case
  proof (cases "k < ?n")
    case True
    have "slices_loop abort (propagate_z t layer) [0..<?n] (reads, (0, data)) =
        Inl (reads + k, fold (propagate_z t layer) (take k [0..<?n]) (0, data))"
      using slices_loop_prefix[of k abort reads "[0..<?n]" "propagate_z t layer" "(0, data)"]
        Cons.prems True ls by simp
    moreover have "take k [0..<?n] = [0..<min k ?n]" using True by (simp add: min_def)
    ultimately show ?thesis using f True ls by simp
  next
    case False
    then have k: "?n \<le> k" by simp
    have "slices_loop abort (propagate_z t layer) [0..<?n] (reads, (0, data)) =
        Inr (reads + ?n, fold (propagate_z t layer) (take ?n [0..<?n]) (0, data))"
      using slices_loop_prefix[of ?n abort reads "[0..<?n]" "propagate_z t layer" "(0, data)"]
        Cons.prems(1) k by simp
    moreover have "take ?n [0..<?n] = [0..<min k ?n]" using k by (simp add: min_def)
    ultimately have s: "slices_loop abort (propagate_z t layer) [0..<?n] (reads, (0, data)) =
        Inr (reads + ?n, (pos, d))" using f by simp
    have a: "\<forall>j<k - ?n. \<not> abort (reads + ?n + j)"
    proof (intro allI impI)
      fix j assume "j < k - ?n"
      then have "?n + j < k" by simp
      from Cons.prems(1)[rule_format, OF this] show "\<not> abort (reads + ?n + j)"
        by (simp add: add.assoc)
    qed
    have b: "k - ?n \<le> layer_slices t layers"
      "k - ?n < layer_slices t layers \<longrightarrow> abort (reads + ?n + (k - ?n))"
      using Cons.prems(2,3) k ls by auto
    from Cons.IH[OF a b, of d] s f k ls show ?thesis by (auto simp: add.assoc)
  qed
qed

lemma propagate_slices_usable [simp]:
  "propagate_slices (t\<lparr>m_usable := b\<rparr>) layers k data = propagate_slices t layers k data"
  by (induction layers arbitrary: k data) simp_all

lemma fill_prefix:
  assumes n: "0 < m_numLayers t"
    and na: "\<forall>j<k. \<not> abort j" and k: "k \<le> depth_slices t"
    and ab: "k < depth_slices t \<longrightarrow> abort k"
  shows "fill img abort t =
     (case fill_slices img t k of
        None \<Rightarrow> None
      | Some data \<Rightarrow>
          Some (if k < depth_slices t
                then Inl (ThreadAbortedException, t\<lparr>m_usable := False, m_data := data\<rparr>)
                else Inr (t\<lparr>m_data := data, m_usable := True\<rparr>)))"
proof -
  let ?t = "t\<lparr>m_usable := False\<rparr>"
  let ?last = "m_numLayers t - 1"
  let ?lx = "m_gridX t ! ?last" and ?ly = "m_gridY t ! ?last" and ?lz = "m_gridZ t ! ?last"
  let ?layers = "rev [0..<m_numLayers t - 1]"
  let ?nz = "length ?lz"
  have ds: "depth_slices t = ?nz + layer_slices ?t ?layers"
    using depth_slices_split[OF n] by (simp add: layer_slices_def)
  let ?st = "fold (fill_z img ?lx ?ly ?lz) [0..<min k ?nz] (Some (0, 0, m_data t ! ?last))"
  show ?thesis
  proof (cases "k < ?nz")
    case True
    have s: "slices_loop abort (fill_z img ?lx ?ly ?lz) [0..<?nz] (0, Some (0, 0, m_data t ! ?last)) =
        Inl (0 + k, fold (fill_z img ?lx ?ly ?lz) (take k [0..<?nz]) (Some (0, 0, m_data t ! ?last)))"
      using slices_loop_prefix[of k abort 0 "[0..<?nz]" "fill_z img ?lx ?ly ?lz"
          "Some (0, 0, m_data t ! ?last)"] na ab True ds by simp
    have tk: "take k [0..<?nz] = [0..<min k ?nz]" using True by (simp add: min_def)
    have kd: "k < depth_slices t" "k - ?nz = 0" using True ds by simp_all
    show ?thesis
      using s kd unfolding tk
      by (simp add: fill_def fill_slices_def Let_def split: option.splits prod.splits)
  next
    case False
    then have kn: "?nz \<le> k" by simp
    have s: "slices_loop abort (fill_z img ?lx ?ly ?lz) [0..<?nz] (0, Some (0, 0, m_data t ! ?last)) =
        Inr (0 + ?nz, fold (fill_z img ?lx ?ly ?lz) (take ?nz [0..<?nz]) (Some (0, 0, m_data t ! ?last)))"
      using slices_loop_prefix[of ?nz abort 0 "[0..<?nz]" "fill_z img ?lx ?ly ?lz"
          "Some (0, 0, m_data t ! ?last)"] na kn by simp
    have tk: "take ?nz [0..<?nz] = [0..<min k ?nz]" using kn by (simp add: min_def)
    have a: "\<forall>j<k - ?nz. \<not> abort (?nz + j)"
    proof (intro allI impI)
      fix j assume "j < k - ?nz"
      then have "?nz + j < k" by simp
      from na[rule_format, OF this] show "\<not> abort (?nz + j)" .
    qed
    have b: "k - ?nz \<le> layer_slices ?t ?layers"
      "k - ?nz < layer_slices ?t ?layers \<longrightarrow> abort (?nz + (k - ?nz))"
      using k ab kn ds by auto
    note p = propagate_layers_prefix[OF a b]
    have lt: "k - ?nz < layer_slices ?t ?layers \<longleftrightarrow> k < depth_slices t" using kn ds by auto
    show ?thesis
      using s p lt unfolding tk
      by (simp add: fill_def fill_slices_def Let_def split: option.splits prod.splits)
  qed
qed

lemma fill_slices_0: "fill_slices img t 0 = Some ((m_data t)[m_numLayers t - 1 := m_data t ! (m_numLayers t - 1)])"
  by (simp add: fill_slices_def)

lemma fold_option_defined:
  assumes "\<And>x s. x \<in> set xs \<Longrightarrow> \<exists>r. g x (Some s) = Some r"
  shows "\<exists>r. fold g xs (Some s) = Some r"
  using assms
proof (induction xs arbitrary: s)
  case Nil
  then show ?case by simp
next
  case (Cons x xs)
  obtain r where r: "g x (Some s) = Some r" using Cons.prems[of x s] by auto
  have "\<exists>r'. fold g xs (Some r) = Some r'" by (rule Cons.IH) (simp add: Cons.prems)
  then show ?case using r by simp
qed

lemma read_voxel_defined:
  fixes img :: "'a::len word TypedImage"
  assumes ok: "image_ok img"
    and x: "0 \<le> px + xx" "px + xx < width img"
    and y: "0 \<le> py + yy" "py + yy < height img"
    and z: "0 \<le> pz + zz" "pz + zz < slices img"
  shows "\<exists>v. read_voxel img px py pz xx yy zz = Some v"
proof -
  let ?w = "width img" and ?h = "height img" and ?s = "slices img"
  let ?a = "pz + zz"
  let ?b = "?h * ?a"
  let ?c = "py + yy"
  let ?d = "?c + ?b"
  let ?e = "?w * ?d"
  let ?f = "px + xx"
  let ?i = "?f + ?e"
  have pos: "0 < ?w" "0 < ?h" "0 < ?s" and cap: "?w * ?h * ?s \<le> INT_MAX"
    and len: "length (pointer img) = nat (?w * ?h * ?s)"
    using ok by (simp_all add: image_ok_def)
  have b0: "0 \<le> ?b" using pos z by simp
  have ab: "?a \<le> ?b" using pos(2) z(1) by (simp add: mult_le_cancel_right1)
  have "?b \<le> ?h * (?s - 1)" using pos(2) z(2) by (intro mult_left_mono) simp_all
  then have d: "?d \<le> ?h * ?s - 1" using y(2) by (simp add: algebra_simps)
  have d0: "0 \<le> ?d" using b0 y(1) by simp
  have e0: "0 \<le> ?e" using pos(1) d0 by simp
  have de: "?d \<le> ?e" using pos(1) d0 by (simp add: mult_le_cancel_right1)
  have "?e \<le> ?w * (?h * ?s - 1)" using pos(1) d by (intro mult_left_mono) simp_all
  then have i: "?i < ?w * ?h * ?s" using x(2) by (simp add: algebra_simps)
  have i0: "0 \<le> ?i" using e0 x(1) by simp
  have m: "?i \<le> INT_MAX" using i cap by simp
  have lo: "INT_MIN \<le> 0" by (simp add: INT_MIN_def)
  have "int32 ?a" "int32 ?b" "int32 ?c" "int32 ?d" "int32 ?e" "int32 ?f" "int32 ?i"
    unfolding int32_def using lo m i0 e0 d0 b0 ab de x y z by linarith+
  moreover have "nat ?i < length (pointer img)" unfolding len using i i0 by simp
  ultimately show ?thesis using i0 by (simp add: read_voxel_def Let_def)
qed

lemma fill_cell_defined:
  fixes img :: "'a::len word TypedImage"
  assumes ok: "image_ok img"
    and x: "0 \<le> px" "px + sx \<le> width img"
    and y: "0 \<le> py" "py + sy \<le> height img"
    and z: "0 \<le> pz" "pz + sz \<le> slices img"
  shows "\<exists>e'. fill_cell img px py pz sx sy sz e = Some e'"
  unfolding fill_cell_def
proof (rule fold_option_defined)
  fix zz s assume zz: "zz \<in> set [0..<nat sz]"
  show "\<exists>r. fold (\<lambda>yy. fold (\<lambda>xx st. case st of None \<Rightarrow> None
        | Some element' \<Rightarrow>
            (case read_voxel img px py pz (int xx) (int yy) (int zz) of None \<Rightarrow> None
             | Some value \<Rightarrow> Some (update_min_max value value element')))
       [0..<nat sx]) [0..<nat sy] (Some s) = Some r"
  proof (rule fold_option_defined)
    fix yy s' assume yy: "yy \<in> set [0..<nat sy]"
    show "\<exists>r. fold (\<lambda>xx st. case st of None \<Rightarrow> None
        | Some element' \<Rightarrow>
            (case read_voxel img px py pz (int xx) (int yy) (int zz) of None \<Rightarrow> None
             | Some value \<Rightarrow> Some (update_min_max value value element')))
       [0..<nat sx] (Some s') = Some r"
    proof (rule fold_option_defined)
      fix xx s'' assume xx: "xx \<in> set [0..<nat sx]"
      have "\<exists>v. read_voxel img px py pz (int xx) (int yy) (int zz) = Some v"
        using xx yy zz x y z by (intro read_voxel_defined[OF ok]) auto
      then show "\<exists>r. (case Some s'' of None \<Rightarrow> None
        | Some element' \<Rightarrow>
            (case read_voxel img px py pz (int xx) (int yy) (int zz) of None \<Rightarrow> None
             | Some value \<Rightarrow> Some (update_min_max value value element'))) = Some r"
        by auto
    qed
  qed
qed

lemma fill_x_defined:
  fixes img :: "'a::len word TypedImage"
  assumes ok: "image_ok img"
    and lx: "\<forall>c\<in>set lx. 0 \<le> c" "sum_list lx \<le> width img"
    and y: "0 \<le> py" "py + sy \<le> height img"
    and z: "0 \<le> pz" "pz + sz \<le> slices img"
    and j: "j \<le> length lx"
  shows "\<exists>els. fold (fill_x img lx sy sz py pz) [0..<j] (Some (pos, 0, elements)) =
     Some (pos + j, origin lx j, els)"
  using j
proof (induction j)
  case 0
  then show ?case by simp
next
  case (Suc j)
  then obtain els where f: "fold (fill_x img lx sy sz py pz) [0..<j] (Some (pos, 0, elements)) =
     Some (pos + j, origin lx j, els)" by auto
  have jl: "j < length lx" using Suc.prems by simp
  have o0: "0 \<le> origin lx j" unfolding origin_def using lx(1)
    by (intro sum_list_nonneg) (auto dest: in_set_takeD)
  have "origin lx j + lx ! j \<le> origin lx (length lx)"
  proof (cases "Suc j = length lx")
    case True
    then show ?thesis using origin_Suc[OF jl] by simp
  next
    case False
    have "origin lx (Suc j) \<le> origin lx (length lx)"
      using origin_step[OF lx(1), of "Suc j" "length lx"] False jl lx(1)
      by (smt (verit) Suc_lessI le_refl nth_mem)
    then show ?thesis using origin_Suc[OF jl] by simp
  qed
  then have o1: "origin lx j + lx ! j \<le> width img" using lx(2) by (simp add: origin_def)
  obtain e' where c: "fill_cell img (origin lx j) py pz (lx ! j) sy sz (els ! (pos + j)) = Some e'"
    using fill_cell_defined[OF ok o0 o1 y z] by blast
  have "fill_x img lx sy sz py pz j (Some (pos + j, origin lx j, els)) =
      Some (pos + Suc j, origin lx (Suc j), els[pos + j := e'])"
    using c origin_Suc[OF jl] by (simp add: fill_x_def)
  then show ?case using f by simp
qed

lemma fill_y_defined:
  fixes img :: "'a::len word TypedImage"
  assumes ok: "image_ok img"
    and lx: "\<forall>c\<in>set lx. 0 \<le> c" "sum_list lx \<le> width img"
    and ly: "\<forall>c\<in>set ly. 0 \<le> c" "sum_list ly \<le> height img"
    and z: "0 \<le> pz" "pz + sz \<le> slices img"
    and j: "j \<le> length ly"
  shows "\<exists>els. fold (fill_y img lx ly sz pz) [0..<j] (Some (pos, 0, elements)) =
     Some (pos + j * length lx, origin ly j, els)"
  using j
proof (induction j)
  case 0
  then show ?case by simp
next
  case (Suc j)
  then obtain els where f: "fold (fill_y img lx ly sz pz) [0..<j] (Some (pos, 0, elements)) =
     Some (pos + j * length lx, origin ly j, els)" by auto
  have jl: "j < length ly" using Suc.prems by simp
  have o0: "0 \<le> origin ly j" unfolding origin_def using ly(1)
    by (intro sum_list_nonneg) (auto dest: in_set_takeD)
  have "origin ly j + ly ! j \<le> origin ly (length ly)"
  proof (cases "Suc j = length ly")
    case True
    then show ?thesis using origin_Suc[OF jl] by simp
  next
    case False
    have "origin ly (Suc j) \<le> origin ly (length ly)"
      using origin_step[OF ly(1), of "Suc j" "length ly"] False jl ly(1)
      by (smt (verit) Suc_lessI le_refl nth_mem)
    then show ?thesis using origin_Suc[OF jl] by simp
  qed
  then have o1: "origin ly j + ly ! j \<le> height img" using ly(2) by (simp add: origin_def)
  obtain els' where c: "fold (fill_x img lx (ly ! j) sz (origin ly j) pz) [0..<length lx]
       (Some (pos + j * length lx, 0, els)) =
     Some (pos + j * length lx + length lx, origin lx (length lx), els')"
    using fill_x_defined[OF ok lx o0 o1 z le_refl] by blast
  have "fill_y img lx ly sz pz j (Some (pos + j * length lx, origin ly j, els)) =
      Some (pos + Suc j * length lx, origin ly (Suc j), els')"
    using c origin_Suc[OF jl] by (simp add: fill_y_def algebra_simps)
  then show ?case using f by simp
qed

lemma fill_z_defined:
  fixes img :: "'a::len word TypedImage"
  assumes ok: "image_ok img"
    and lx: "\<forall>c\<in>set lx. 0 \<le> c" "sum_list lx \<le> width img"
    and ly: "\<forall>c\<in>set ly. 0 \<le> c" "sum_list ly \<le> height img"
    and lz: "\<forall>c\<in>set lz. 0 \<le> c" "sum_list lz \<le> slices img"
    and j: "j \<le> length lz"
  shows "\<exists>els. fold (fill_z img lx ly lz) [0..<j] (Some (pos, 0, elements)) =
     Some (pos + j * (length ly * length lx), origin lz j, els)"
  using j
proof (induction j)
  case 0
  then show ?case by simp
next
  case (Suc j)
  then obtain els where f: "fold (fill_z img lx ly lz) [0..<j] (Some (pos, 0, elements)) =
     Some (pos + j * (length ly * length lx), origin lz j, els)" by auto
  have jl: "j < length lz" using Suc.prems by simp
  have o0: "0 \<le> origin lz j" unfolding origin_def using lz(1)
    by (intro sum_list_nonneg) (auto dest: in_set_takeD)
  have "origin lz j + lz ! j \<le> origin lz (length lz)"
  proof (cases "Suc j = length lz")
    case True
    then show ?thesis using origin_Suc[OF jl] by simp
  next
    case False
    have "origin lz (Suc j) \<le> origin lz (length lz)"
      using origin_step[OF lz(1), of "Suc j" "length lz"] False jl lz(1)
      by (smt (verit) Suc_lessI le_refl nth_mem)
    then show ?thesis using origin_Suc[OF jl] by simp
  qed
  then have o1: "origin lz j + lz ! j \<le> slices img" using lz(2) by (simp add: origin_def)
  obtain els' where c: "fold (fill_y img lx ly (lz ! j) (origin lz j)) [0..<length ly]
       (Some (pos + j * (length ly * length lx), 0, els)) =
     Some (pos + j * (length ly * length lx) + length ly * length lx, origin ly (length ly), els')"
    using fill_y_defined[OF ok lx ly o0 o1 le_refl] by blast
  have "fill_z img lx ly lz j (Some (pos + j * (length ly * length lx), origin lz j, els)) =
      Some (pos + Suc j * (length ly * length lx), origin lz (Suc j), els')"
    using c origin_Suc[OF jl] by (simp add: fill_z_def algebra_simps)
  then show ?case using f by simp
qed

lemma axis_sum:
  assumes "axis_ok dim g" and "k < length g"
  shows "sum_list (g ! k) = dim"
  using assms(2)
proof (induction k)
  case 0
  then show ?case using assms(1) by (simp add: axis_ok_def)
next
  case (Suc k)
  then have "g ! (k + 1) = newLayer (g ! k) \<or> g ! (k + 1) = g ! k"
    using assms(1) by (simp add: axis_ok_def)
  then show ?case using Suc by (auto simp: sum_list_newLayer)
qed

lemma axis_nonneg:
  assumes "axis_ok dim g" and "k < length g"
  shows "\<forall>c\<in>set (g ! k). 0 \<le> c"
proof
  fix c assume "c \<in> set (g ! k)"
  moreover have "\<forall>s\<in>set (g ! k). 0 < s" using assms by (simp add: axis_ok_def)
  ultimately show "0 \<le> c" by fastforce
qed

lemma fill_slices_defined:
  fixes img :: "'a::len word TypedImage"
  assumes ok: "image_ok img" and t: "tree_ok (width img) (height img) (slices img) t"
  shows "\<exists>data. fill_slices img t k = Some data"
proof -
  let ?last = "m_numLayers t - 1"
  let ?lx = "m_gridX t ! ?last" and ?ly = "m_gridY t ! ?last" and ?lz = "m_gridZ t ! ?last"
  have n: "?last < m_numLayers t" using t by (simp add: tree_ok_def)
  have ax: "axis_ok (width img) (m_gridX t)" "axis_ok (height img) (m_gridY t)"
    "axis_ok (slices img) (m_gridZ t)"
    and ln: "?last < length (m_gridX t)" "?last < length (m_gridY t)" "?last < length (m_gridZ t)"
    using t n by (simp_all add: tree_ok_def)
  have lx: "\<forall>c\<in>set ?lx. 0 \<le> c" "sum_list ?lx \<le> width img"
    using axis_nonneg[OF ax(1) ln(1)] axis_sum[OF ax(1) ln(1)] by simp_all
  have ly: "\<forall>c\<in>set ?ly. 0 \<le> c" "sum_list ?ly \<le> height img"
    using axis_nonneg[OF ax(2) ln(2)] axis_sum[OF ax(2) ln(2)] by simp_all
  have lz: "\<forall>c\<in>set ?lz. 0 \<le> c" "sum_list ?lz \<le> slices img"
    using axis_nonneg[OF ax(3) ln(3)] axis_sum[OF ax(3) ln(3)] by simp_all
  have "min k (length ?lz) \<le> length ?lz" by simp
  from fill_z_defined[OF ok lx ly lz this, of 0 "m_data t ! ?last"]
  show ?thesis by (auto simp: fill_slices_def Let_def)
qed

text \<open>
  Claim C5.  \<^verbatim>\<open>fill\<close> reads the abort flag at the start of each depth slice, before the
  work of that slice: the slices of the finest layer first, then the slices of each coarser
  layer, \<open>depth_slices t\<close> reads in all.  \<open>abort k\<close> is what read \<open>k\<close> sees.  On a laid out
  tree and an image that holds its voxels: when read \<open>k\<close> is the first to see the flag set,
  \<^verbatim>\<open>fill\<close> throws at once, with exactly the work of the slices before \<open>k\<close> done (none of
  slice \<open>k\<close> or of a later slice) and the tree not usable; when no read sees the flag set,
  \<^verbatim>\<open>fill\<close> returns with the work of all slices done and the tree usable.  After
  \<^verbatim>\<open>setImage\<close> on an image of a supported type the tree is usable exactly when no read saw
  the flag set.
\<close>

theorem fill_cancellation:
  fixes img :: "'a::len word TypedImage"
  assumes ok: "tree_ok (width img) (height img) (slices img) t" and im: "image_ok img"
  shows "(\<forall>k<depth_slices t. abort k \<and> (\<forall>j<k. \<not> abort j) \<longrightarrow>
            (\<exists>data. fill_slices img t k = Some data \<and>
               fill img abort t =
                 Some (Inl (ThreadAbortedException, t\<lparr>m_usable := False, m_data := data\<rparr>))))
       \<and> ((\<forall>k<depth_slices t. \<not> abort k) \<longrightarrow>
            (\<exists>data. fill_slices img t (depth_slices t) = Some data \<and>
               fill img abort t = Some (Inr (t\<lparr>m_data := data, m_usable := True\<rparr>))))
       \<and> fill_slices img t 0 = Some (m_data t)
       \<and> (setImage mi abort t0 = Some t1 \<and> image_type mi \<noteq> OTHER \<longrightarrow>
            isUsable t1 = (\<forall>k<depth_slices t1. \<not> abort k))"
proof -
  have n: "0 < m_numLayers t" using ok by (simp add: tree_ok_def)
  have a: "\<exists>data. fill_slices img t k = Some data \<and>
       fill img abort t = Some (Inl (ThreadAbortedException, t\<lparr>m_usable := False, m_data := data\<rparr>))"
    if k: "k < depth_slices t" and ab: "abort k" and na: "\<forall>j<k. \<not> abort j" for k
  proof -
    obtain data where d: "fill_slices img t k = Some data"
      using fill_slices_defined[OF im ok] by blast
    have "fill img abort t =
        (case fill_slices img t k of None \<Rightarrow> None
         | Some data \<Rightarrow> Some (if k < depth_slices t
              then Inl (ThreadAbortedException, t\<lparr>m_usable := False, m_data := data\<rparr>)
              else Inr (t\<lparr>m_data := data, m_usable := True\<rparr>)))"
      using k ab by (intro fill_prefix[OF n na]) simp_all
    then show ?thesis using d k by simp
  qed
  have b: "\<exists>data. fill_slices img t (depth_slices t) = Some data \<and>
       fill img abort t = Some (Inr (t\<lparr>m_data := data, m_usable := True\<rparr>))"
    if na: "\<forall>k<depth_slices t. \<not> abort k"
  proof -
    obtain data where d: "fill_slices img t (depth_slices t) = Some data"
      using fill_slices_defined[OF im ok] by blast
    have "fill img abort t =
        (case fill_slices img t (depth_slices t) of None \<Rightarrow> None
         | Some data \<Rightarrow> Some (if depth_slices t < depth_slices t
              then Inl (ThreadAbortedException, t\<lparr>m_usable := False, m_data := data\<rparr>)
              else Inr (t\<lparr>m_data := data, m_usable := True\<rparr>)))"
      by (intro fill_prefix[OF n na]) simp_all
    then show ?thesis using d by simp
  qed
  have z: "fill_slices img t 0 = Some (m_data t)" by (simp add: fill_slices_def)
  have c: "isUsable t1 = (\<forall>k<depth_slices t1. \<not> abort k)"
    if "setImage mi abort t0 = Some t1" "image_type mi \<noteq> OTHER"
  proof -
    from setImage_exact[OF that(1)] obtain ta
      where ta: "setImage_allocate mi t0 = Some ta" "t1 = setImage_try_exact mi abort ta"
      by (auto simp: setImage_exact_def split: option.splits)
    from setImage_allocate_numLayers[OF ta(1)] have "0 < m_numLayers ta" by simp
    from setImage_try_usable[OF this that(2), of abort] ta(2) show ?thesis
      by (simp add: isUsable_def)
  qed
  show ?thesis using a b c z by blast
qed

theorem fill_cancellation_witness:
  "fill_slices volume2 tree2_allocated 1 = Some (m_data tree2_aborted)
   \<and> fill volume2 (\<lambda>k. k = 1) tree2_allocated = Some (Inl (ThreadAbortedException, tree2_aborted))
   \<and> fill_slices volume2 tree2_allocated 2 = Some (m_data tree2_filled)
   \<and> fill volume2 no_abort tree2_allocated = Some (Inr tree2_filled)
   \<and> setImage (UShortImage volume2) (\<lambda>k. k = 1) (Octree_new 1 0) = Some tree2_aborted
   \<and> \<not> isUsable tree2_aborted"
proof -
  have ok: "tree_ok (width volume2) (height volume2) (slices volume2) tree2_allocated"
    by (simp add: tree_ok_def axis_ok_def tree2_allocated_def volume2_def newLayer_def half_def
        less_Suc_eq numeral_2_eq_2)
  have im: "image_ok volume2" by (simp add: image_ok_def volume2_def INT_MAX_def)
  have ds: "depth_slices tree2_allocated = 2" unfolding tree2_allocated_def by code_simp
  have s1: "fill_slices volume2 tree2_allocated 1 = Some (m_data tree2_aborted)"
    unfolding tree2_allocated_def tree2_aborted_def by code_simp
  have s2: "fill_slices volume2 tree2_allocated 2 = Some (m_data tree2_filled)"
    unfolding tree2_allocated_def tree2_filled_def by code_simp
  have t1: "setImage (UShortImage volume2) (\<lambda>k. k = 1) (Octree_new 1 0) = Some tree2_aborted"
    unfolding tree2_aborted_def by code_simp
  have ds1: "depth_slices tree2_aborted = 2" unfolding tree2_aborted_def by code_simp
  have c: "\<not> (\<forall>k<depth_slices tree2_aborted. \<not> k = 1)" by (simp add: ds1)
  have e1: "tree2_allocated\<lparr>m_usable := False, m_data := m_data tree2_aborted\<rparr> = tree2_aborted"
    by (simp add: tree2_allocated_def tree2_aborted_def)
  have e2: "tree2_allocated\<lparr>m_data := m_data tree2_filled, m_usable := True\<rparr> = tree2_filled"
    by (simp add: tree2_allocated_def tree2_filled_def)
  note th1 = fill_cancellation[OF ok im, of "\<lambda>k. k = 1" "UShortImage volume2"
        "Octree_new 1 0" tree2_aborted]
  note th2 = fill_cancellation[OF ok im, of no_abort "UShortImage volume2"
        "Octree_new 1 0" tree2_aborted]
  have f1: "fill volume2 (\<lambda>k. k = 1) tree2_allocated = Some (Inl (ThreadAbortedException, tree2_aborted))"
    using th1[THEN conjunct1, rule_format, of 1] s1 e1 by (simp add: ds)
  have f2: "fill volume2 no_abort tree2_allocated = Some (Inr tree2_filled)"
    using th2[THEN conjunct2, THEN conjunct1] s2 e2 by (simp add: ds no_abort_def)
  have u: "\<not> isUsable tree2_aborted"
    using th1[THEN conjunct2, THEN conjunct2, THEN conjunct2] t1 c by simp
  show ?thesis using s1 s2 f1 f2 t1 u by simp
qed
section \<open>The readiness flag and the range\<close>

text \<open>
  Claim C4 fails on the code for an image whose element type is neither \<^verbatim>\<open>USHORT\<close> nor
  \<^verbatim>\<open>UBYTE\<close>: \<^verbatim>\<open>setImage\<close> runs no \<^verbatim>\<open>fill\<close> and still sets \<^verbatim>\<open>m_usable\<close>.  On a volume of one
  voxel of another element type the tree is usable and its only element is as its
  constructor left it, with \<open>min = INT_MAX\<close> and \<open>max = INT_MIN\<close>.
\<close>

theorem setImage_other_type_usable:
  "setImage (OtherImage \<lparr>width = 1, height = 1, slices = 1, pointer = [()]\<rparr>) abort
      (Octree_new 1 numLayers0) =
     Some \<lparr>m_minCubeSize = 1, m_numLayers = 1, m_gridX = [[1]], m_gridY = [[1]],
       m_gridZ = [[1]], m_data = [[\<lparr>min_e = INT_MAX, max_e = INT_MIN, type_e = NODE\<rparr>]],
       m_min = INT_MIN, m_max = INT_MAX, m_cubesInside = [], m_voxelsInside = 0,
       m_usable = True\<rparr>"
  by (simp add: setImage_def setImage_allocate_def setImage_try_def Octree_new_def
      createLayerGrid_def createLayerGrid_loop.simps half_def pad_grid.simps
      allocate_layer_def OctreeElement_new_def)

text \<open>
  Claim C6.  \<^verbatim>\<open>setInsideRange\<close> with the bounds the tree already holds returns false and
  leaves the tree as it is, whatever its state.  A newly constructed tree holds
  \<open>INT_MIN\<close> and \<open>INT_MAX\<close>, so a first call with these two values is such a call.
\<close>

theorem setInsideRange_same_bounds:
  "(m_min t = lo \<and> m_max t = hi \<longrightarrow> setInsideRange lo hi t = Some (False, t))
   \<and> m_min (Octree_new minCubeSize numLayers0) = INT_MIN
   \<and> m_max (Octree_new minCubeSize numLayers0) = INT_MAX
   \<and> setInsideRange INT_MIN INT_MAX (Octree_new minCubeSize numLayers0) =
        Some (False, Octree_new minCubeSize numLayers0)"
  by (simp add: setInsideRange_def Octree_new_def)

theorem setInsideRange_same_bounds_witness:
  "setInsideRange INT_MIN INT_MAX tree2_aborted = Some (False, tree2_aborted)
   \<and> setInsideRange INT_MIN INT_MAX (Octree_new 1 0) = Some (False, Octree_new 1 0)"
  using setInsideRange_same_bounds[of tree2_aborted INT_MIN INT_MAX 1 0]
  by (simp add: tree2_aborted_def)

section \<open>Aggregation\<close>









section \<open>Classification\<close>

lemma checkChildren_children:
  "checkChildren t layer px py pz (data, voxelsInside) =
     (let pos = px + length (m_gridX t ! layer) * (py + length (m_gridY t ! layer) * pz) in
      if \<not> element_defined t data layer pos then None
      else if rejected t (data ! layer ! pos) then
        Some (LEAF_OUT, set_type data layer pos LEAF_OUT, voxelsInside)
      else if layer + 1 = m_numLayers t then
        (if \<not> cell_defined t layer px py pz then None
         else Some (LEAF_IN, set_type data layer pos LEAF_IN,
                wrap32 (voxelsInside +
                  m_gridX t ! layer ! px * m_gridY t ! layer ! py * m_gridZ t ! layer ! pz)))
      else if \<not> getSplit_defined t layer then None
      else
        (case fold (check_step t (layer + 1)) (children t layer px py pz)
                (Some (True, True, data, voxelsInside)) of
           None \<Rightarrow> None
         | Some (allIn, allOut, data', voxelsInside') \<Rightarrow>
             Some (if allIn then LEAF_IN else if allOut then LEAF_OUT else NODE,
                   set_type data' layer pos (if allIn then LEAF_IN else if allOut then LEAF_OUT else NODE),
                   voxelsInside')))"
proof -
  obtain nxx nyy nzz where g: "getSplit t layer = (nxx, nyy, nzz)" by (cases "getSplit t layer") auto
  have f: "fold (\<lambda>zz. fold (\<lambda>yy. fold (\<lambda>xx st.
               case st of
                 None \<Rightarrow> None
               | Some (allIn, allOut, data', voxelsInside') \<Rightarrow>
                  (case checkChildren t (layer + 1) (nxx * px + xx) (nyy * py + yy) (nzz * pz + zz)
                          (data', voxelsInside') of
                     None \<Rightarrow> None
                   | Some (value, data'', voxelsInside'') \<Rightarrow>
                       if value = LEAF_IN then Some (allIn, False, data'', voxelsInside'')
                       else if value = LEAF_OUT then Some (False, allOut, data'', voxelsInside'')
                       else Some (False, False, data'', voxelsInside'')))
             [0..<nxx]) [0..<nyy]) [0..<nzz]
      = fold (check_step t (layer + 1)) (children t layer px py pz)"
  proof -
    let ?P = "List.product [0..<nzz] (List.product [0..<nyy] [0..<nxx])"
    let ?h = "\<lambda>a. (nxx * px + snd (snd a), nyy * py + fst (snd a), nzz * pz + fst a)"
    have c: "children t layer px py pz = map ?h ?P"
      unfolding children_product g by simp
    have e: "(\<lambda>(zz, yy, xx) st.
               case st of
                 None \<Rightarrow> None
               | Some (allIn, allOut, data', voxelsInside') \<Rightarrow>
                  (case checkChildren t (layer + 1) (nxx * px + xx) (nyy * py + yy) (nzz * pz + zz)
                          (data', voxelsInside') of
                     None \<Rightarrow> None
                   | Some (value, data'', voxelsInside'') \<Rightarrow>
                       if value = LEAF_IN then Some (allIn, False, data'', voxelsInside'')
                       else if value = LEAF_OUT then Some (False, allOut, data'', voxelsInside'')
                       else Some (False, False, data'', voxelsInside'')))
        = check_step t (layer + 1) \<circ> ?h"
      by (intro ext) (simp add: check_step_def comp_def split: option.splits prod.splits)
    show ?thesis
      unfolding fold_product3 c fold_map e ..
  qed
  show ?thesis
    by (subst checkChildren.simps, unfold g prod.case f)
       (simp add: Let_def rejected_def split: option.splits prod.splits)
qed

lemma cell_index_inj:
  assumes "cell_defined t L x y z" and "cell_defined t L x' y' z'"
    and "x + length (m_gridX t ! L) * (y + length (m_gridY t ! L) * z)
       = x' + length (m_gridX t ! L) * (y' + length (m_gridY t ! L) * z')"
  shows "x = x' \<and> y = y' \<and> z = z'"
proof -
  let ?nx = "length (m_gridX t ! L)" and ?ny = "length (m_gridY t ! L)"
  from assms(1,2) have b: "x < ?nx" "y < ?ny" "x' < ?nx" "y' < ?ny"
    by (simp_all add: cell_defined_def)
  have z: "z = z'" using index3(1)[OF b(1,2), of z] index3(1)[OF b(3,4), of z'] assms(3) by simp
  have "x + ?nx * y = x' + ?nx * y'"
    using index3(2)[OF b(1,2), of z] index3(2)[OF b(3,4), of z'] assms(3) by simp
  then have "y = y'" "x = x'"
    using index3(3)[OF b(1,2)] index3(3)[OF b(3,4)] index3(4)[OF b(1,2)] index3(4)[OF b(3,4)]
    by simp_all
  with z show ?thesis by simp
qed

lemma same_bounds_set_type:
  assumes "same_bounds d0 d"
  shows "same_bounds d0 (set_type d L pos ty)"
proof -
  let ?d' = "set_type d L pos ty"
  have l: "length ?d' = length d0" using assms by (simp add: same_bounds_def set_type_def)
  have "length (?d' ! layer) = length (d0 ! layer) \<and>
        (\<forall>j<length (d0 ! layer).
           min_e (?d' ! layer ! j) = min_e (d0 ! layer ! j) \<and>
           max_e (?d' ! layer ! j) = max_e (d0 ! layer ! j))"
    if layer: "layer < length d0" for layer
  proof -
    have ld: "layer < length d" using assms layer by (simp add: same_bounds_def)
    have b: "length (d ! layer) = length (d0 ! layer)"
      "\<forall>j<length (d0 ! layer). min_e (d ! layer ! j) = min_e (d0 ! layer ! j) \<and>
           max_e (d ! layer ! j) = max_e (d0 ! layer ! j)"
      using assms layer by (simp_all add: same_bounds_def)
    show ?thesis
    proof (cases "layer = L")
      case False
      then show ?thesis using b ld by (simp add: set_type_def)
    next
      case True
      have e: "?d' ! layer = (d ! L)[pos := (d ! L ! pos)\<lparr>type_e := ty\<rparr>]"
        using True ld by (simp add: set_type_def)
      have "min_e ((d ! L)[pos := (d ! L ! pos)\<lparr>type_e := ty\<rparr>] ! j) = min_e (d ! L ! j)
          \<and> max_e ((d ! L)[pos := (d ! L ! pos)\<lparr>type_e := ty\<rparr>] ! j) = max_e (d ! L ! j)"
        if "j < length (d ! L)" for j
        using that by (cases "j = pos") simp_all
      then show ?thesis unfolding e using b True by simp
    qed
  qed
  with l show ?thesis unfolding same_bounds_def by blast
qed

lemma label_at_set_type:
  assumes "L < length d" and "pos < length (d ! L)"
  shows "label_at t (set_type d L pos ty) L' x y z =
     (if L' = L \<and> x + length (m_gridX t ! L') * (y + length (m_gridY t ! L') * z) = pos
      then ty else label_at t d L' x y z)"
  using assms by (auto simp: label_at_def set_type_def nth_list_update)

lemma relabelled_refl: "relabelled t d d"
  by (simp add: relabelled_def)

lemma relabelled_trans: "relabelled t d d' \<Longrightarrow> relabelled t d' d'' \<Longrightarrow> relabelled t d d''"
  unfolding relabelled_def by metis

lemma relabelled_set_type:
  assumes "L + k + 1 = m_numLayers t" and c: "cell_defined t L x y z"
    and "L < length d"
    and "x + length (m_gridX t ! L) * (y + length (m_gridY t ! L) * z) < length (d ! L)"
  shows "relabelled t d (set_type d L (x + length (m_gridX t ! L) * (y + length (m_gridY t ! L) * z))
           (classify t k L x y z))"
  unfolding relabelled_def
proof (intro allI impI)
  fix L' x' y' z'
  let ?d' = "set_type d L (x + length (m_gridX t ! L) * (y + length (m_gridY t ! L) * z))
           (classify t k L x y z)"
  assume a: "L' < m_numLayers t \<and> cell_defined t L' x' y' z'"
  have k: "k = m_numLayers t - 1 - L" using assms(1) by simp
  show "label_at t ?d' L' x' y' z' = label_at t d L' x' y' z' \<or>
        label_at t ?d' L' x' y' z' = classify t (m_numLayers t - 1 - L') L' x' y' z'"
  proof (cases "L' = L \<and> x' + length (m_gridX t ! L') * (y' + length (m_gridY t ! L') * z')
      = x + length (m_gridX t ! L) * (y + length (m_gridY t ! L) * z)")
    case True
    then have "L' = L" and "x' + length (m_gridX t ! L) * (y' + length (m_gridY t ! L) * z')
      = x + length (m_gridX t ! L) * (y + length (m_gridY t ! L) * z)" by auto
    with a have "cell_defined t L x' y' z'" by simp
    from cell_index_inj[OF this c \<open>x' + length (m_gridX t ! L) * (y' + length (m_gridY t ! L) * z')
      = x + length (m_gridX t ! L) * (y + length (m_gridY t ! L) * z)\<close>]
    have "x' = x \<and> y' = y \<and> z' = z" .
    then show ?thesis using True k by (simp add: label_at_set_type[OF assms(3,4)])
  next
    case False
    then show ?thesis by (auto simp: label_at_set_type[OF assms(3,4)])
  qed
qed

lemma classified_relabelled:
  assumes ok: "tree_ok w h s t" and r: "relabelled t d d'"
  shows "L + k + 1 = m_numLayers t \<Longrightarrow> cell_defined t L x y z \<Longrightarrow>
     classified t d k L x y z \<Longrightarrow> classified t d' k L x y z"
proof (induction k arbitrary: L x y z)
  case 0
  have "L < m_numLayers t" "m_numLayers t - 1 - L = 0" using 0(1) by simp_all
  with r 0 show ?case unfolding relabelled_def by (metis classified.simps(1))
next
  case (Suc k)
  have L: "L < m_numLayers t" "m_numLayers t - 1 - L = Suc k" "L + 1 < m_numLayers t"
    using Suc.prems(1) by simp_all
  have a: "label_at t d' L x y z = classify t (Suc k) L x y z"
    using r L Suc.prems(2,3) unfolding relabelled_def by (metis classified.simps(2))
  have b: "classified t d' k (L + 1) (fst c) (fst (snd c)) (snd (snd c))"
    if n: "classify t (Suc k) L x y z = NODE" and c: "c \<in> set (children t L x y z)" for c
  proof -
    have m: "(fst c, fst (snd c), snd (snd c)) \<in> set (children t L x y z)" using c by simp
    have "classified t d k (L + 1) (fst c) (fst (snd c)) (snd (snd c))"
      using Suc.prems(3) n c by simp
    from Suc.IH[OF _ children_in_range[OF ok L(3) Suc.prems(2) m] this] Suc.prems(1)
    show ?thesis by simp
  qed
  show ?case using a b by simp
qed

lemma check_children_fold:
  assumes IH: "\<And>c d v. c \<in> set cs \<Longrightarrow> same_bounds (m_data t) d \<Longrightarrow>
      \<exists>d' v'. checkChildren t L (fst c) (fst (snd c)) (snd (snd c)) (d, v) = Some (cl c, d', v')
        \<and> same_bounds (m_data t) d' \<and> relabelled t d d' \<and> good c d'"
    and pres: "\<And>c d d'. c \<in> set cs \<Longrightarrow> good c d \<Longrightarrow> relabelled t d d' \<Longrightarrow> good c d'"
    and sb: "same_bounds (m_data t) d"
  shows "\<exists>d' v'. fold (check_step t L) cs (Some (aI, aO, d, v)) =
        Some (aI \<and> (\<forall>c\<in>set cs. cl c = LEAF_IN), aO \<and> (\<forall>c\<in>set cs. cl c = LEAF_OUT), d', v')
      \<and> same_bounds (m_data t) d' \<and> relabelled t d d' \<and> (\<forall>c\<in>set cs. good c d')"
  using IH pres sb
proof (induction cs arbitrary: aI aO d v)
  case Nil
  then show ?case by (simp add: relabelled_refl)
next
  case (Cons c cs)
  from Cons.prems(1)[of c d v] Cons.prems(3) obtain d1 v1 where
    c1: "checkChildren t L (fst c) (fst (snd c)) (snd (snd c)) (d, v) = Some (cl c, d1, v1)"
    and sb1: "same_bounds (m_data t) d1" and r1: "relabelled t d d1" and g1: "good c d1"
    by auto
  let ?aI = "aI \<and> cl c = LEAF_IN" and ?aO = "aO \<and> cl c = LEAF_OUT"
  have st: "check_step t L c (Some (aI, aO, d, v)) = Some (?aI, ?aO, d1, v1)"
    using c1 by (simp add: check_step_def)
  have "\<exists>d' v'. fold (check_step t L) cs (Some (?aI, ?aO, d1, v1)) =
        Some (?aI \<and> (\<forall>c\<in>set cs. cl c = LEAF_IN), ?aO \<and> (\<forall>c\<in>set cs. cl c = LEAF_OUT), d', v')
      \<and> same_bounds (m_data t) d' \<and> relabelled t d1 d' \<and> (\<forall>c\<in>set cs. good c d')"
  proof (rule Cons.IH)
    show "\<And>c' d v. c' \<in> set cs \<Longrightarrow> same_bounds (m_data t) d \<Longrightarrow>
      \<exists>d' v'. checkChildren t L (fst c') (fst (snd c')) (snd (snd c')) (d, v) = Some (cl c', d', v')
        \<and> same_bounds (m_data t) d' \<and> relabelled t d d' \<and> good c' d'"
      using Cons.prems(1) by simp
    show "\<And>c' d d'. c' \<in> set cs \<Longrightarrow> good c' d \<Longrightarrow> relabelled t d d' \<Longrightarrow> good c' d'"
      using Cons.prems(2) by simp
    show "same_bounds (m_data t) d1" by fact
  qed
  then obtain d' v' where
    f: "fold (check_step t L) cs (Some (?aI, ?aO, d1, v1)) =
        Some (?aI \<and> (\<forall>c\<in>set cs. cl c = LEAF_IN), ?aO \<and> (\<forall>c\<in>set cs. cl c = LEAF_OUT), d', v')"
    and sb': "same_bounds (m_data t) d'" and r': "relabelled t d1 d'"
    and g': "\<forall>c\<in>set cs. good c d'"
    by blast
  have gc: "good c d'" using Cons.prems(2)[of c d1 d'] g1 r' by simp
  have "fold (check_step t L) (c # cs) (Some (aI, aO, d, v)) =
        Some (aI \<and> (\<forall>c\<in>set (c # cs). cl c = LEAF_IN),
              aO \<and> (\<forall>c\<in>set (c # cs). cl c = LEAF_OUT), d', v')"
    using st f by simp
  then show ?case using sb' relabelled_trans[OF r1 r'] g' gc by auto
qed

lemma tree_ok_defined:
  assumes ok: "tree_ok w h s t" and L: "L < m_numLayers t" and c: "cell_defined t L x y z"
    and sb: "same_bounds (m_data t) d"
  shows "element_defined t d L (x + length (m_gridX t ! L) * (y + length (m_gridY t ! L) * z))"
    and "L < length d"
    and "x + length (m_gridX t ! L) * (y + length (m_gridY t ! L) * z) < length (d ! L)"
    and "rejected t (d ! L ! (x + length (m_gridX t ! L) * (y + length (m_gridY t ! L) * z)))
       = rejected t (element_at t L x y z)"
    and "L + 1 < m_numLayers t \<Longrightarrow> getSplit_defined t L"
proof -
  let ?pos = "x + length (m_gridX t ! L) * (y + length (m_gridY t ! L) * z)"
  have ld: "L < length (m_data t)" using ok L by (simp add: tree_ok_def)
  show l: "L < length d" using sb ld by (simp add: same_bounds_def)
  have p0: "?pos < length (m_data t ! L)" using cell_index_less[OF ok L c] .
  show p: "?pos < length (d ! L)" using sb ld p0 by (simp add: same_bounds_def)
  show "element_defined t d L ?pos"
    using ok L l p by (simp add: element_defined_def tree_ok_def)
  show "rejected t (d ! L ! ?pos) = rejected t (element_at t L x y z)"
    using sb ld p0 by (simp add: same_bounds_def rejected_def element_at_def)
  show "getSplit_defined t L" if "L + 1 < m_numLayers t"
  proof -
    have "m_gridX t ! L \<noteq> []" "m_gridY t ! L \<noteq> []" "m_gridZ t ! L \<noteq> []"
      using ok L unfolding tree_ok_def axis_ok_def by metis+
    then show ?thesis using ok that by (simp add: getSplit_defined_def tree_ok_def)
  qed
qed

lemma combine_children:
  "(if \<forall>c\<in>set cs. f c = LEAF_IN then LEAF_IN
    else if \<forall>c\<in>set cs. f c = LEAF_OUT then LEAF_OUT else NODE)
   = combine (map f cs)"
  by (simp add: combine_def)

lemma checkChildren_classify:
  assumes ok: "tree_ok w h s t"
  shows "L + k + 1 = m_numLayers t \<Longrightarrow> cell_defined t L x y z \<Longrightarrow> same_bounds (m_data t) d \<Longrightarrow>
     \<exists>d' v'. checkChildren t L x y z (d, v) = Some (classify t k L x y z, d', v')
        \<and> same_bounds (m_data t) d' \<and> relabelled t d d' \<and> classified t d' k L x y z"
proof (induction k arbitrary: L x y z d v)
  case 0
  let ?pos = "x + length (m_gridX t ! L) * (y + length (m_gridY t ! L) * z)"
  have L: "L < m_numLayers t" "L + 1 = m_numLayers t" using 0(1) by simp_all
  note df = tree_ok_defined[OF ok L(1) 0(2,3)]
  let ?ty = "classify t 0 L x y z"
  let ?d' = "set_type d L ?pos ?ty"
  have r: "\<exists>v'. checkChildren t L x y z (d, v) = Some (?ty, ?d', v')"
    unfolding checkChildren_children Let_def using df(1,4) L(2) 0(2) by simp
  have sb: "same_bounds (m_data t) ?d'" using same_bounds_set_type[OF 0(3)] .
  have rl: "relabelled t d ?d'" using relabelled_set_type[OF 0(1,2) df(2,3)] .
  have cl: "classified t ?d' 0 L x y z"
    by (simp add: label_at_set_type[OF df(2,3)])
  show ?case using r sb rl cl by blast
next
  case (Suc k)
  let ?pos = "x + length (m_gridX t ! L) * (y + length (m_gridY t ! L) * z)"
  have L: "L < m_numLayers t" "L + 1 < m_numLayers t" "L + 1 \<noteq> m_numLayers t"
    using Suc.prems(1) by simp_all
  note c = Suc.prems(2)
  note df = tree_ok_defined[OF ok L(1) c Suc.prems(3)]
  let ?ty = "classify t (Suc k) L x y z"
  show ?case
  proof (cases "rejected t (element_at t L x y z)")
    case True
    let ?d' = "set_type d L ?pos ?ty"
    have r: "checkChildren t L x y z (d, v) = Some (?ty, ?d', v)"
      unfolding checkChildren_children Let_def using df(1,4) True by simp
    have sb: "same_bounds (m_data t) ?d'" using same_bounds_set_type[OF Suc.prems(3)] .
    have rl: "relabelled t d ?d'" using relabelled_set_type[OF Suc.prems(1) c df(2,3)] .
    have cl: "classified t ?d' (Suc k) L x y z"
      using True by (simp add: label_at_set_type[OF df(2,3)])
    show ?thesis using r sb rl cl by blast
  next
    case False
    let ?cs = "children t L x y z"
    let ?cl = "\<lambda>c. classify t k (L + 1) (fst c) (fst (snd c)) (snd (snd c))"
    let ?good = "\<lambda>c d. classified t d k (L + 1) (fst c) (fst (snd c)) (snd (snd c))"
    have cr: "cell_defined t (L + 1) (fst c) (fst (snd c)) (snd (snd c))" if "c \<in> set ?cs" for c
      using children_in_range[OF ok L(2) c, of "fst c" "fst (snd c)" "snd (snd c)"] that by simp
    have "\<exists>d' v'. fold (check_step t (L + 1)) ?cs (Some (True, True, d, v)) =
        Some (True \<and> (\<forall>c\<in>set ?cs. ?cl c = LEAF_IN), True \<and> (\<forall>c\<in>set ?cs. ?cl c = LEAF_OUT), d', v')
      \<and> same_bounds (m_data t) d' \<and> relabelled t d d' \<and> (\<forall>c\<in>set ?cs. ?good c d')"
    proof (rule check_children_fold)
      show "\<And>c d v. c \<in> set ?cs \<Longrightarrow> same_bounds (m_data t) d \<Longrightarrow>
        \<exists>d' v'. checkChildren t (L + 1) (fst c) (fst (snd c)) (snd (snd c)) (d, v) = Some (?cl c, d', v')
          \<and> same_bounds (m_data t) d' \<and> relabelled t d d' \<and> ?good c d'"
        using Suc.IH[of "L + 1"] Suc.prems(1) cr by simp
      show "\<And>c d d'. c \<in> set ?cs \<Longrightarrow> ?good c d \<Longrightarrow> relabelled t d d' \<Longrightarrow> ?good c d'"
        using classified_relabelled[OF ok, of _ _ "L + 1" k] Suc.prems(1) cr by simp
      show "same_bounds (m_data t) d" by fact
    qed
    then obtain d1 v1 where
      f: "fold (check_step t (L + 1)) ?cs (Some (True, True, d, v)) =
        Some (\<forall>c\<in>set ?cs. ?cl c = LEAF_IN, \<forall>c\<in>set ?cs. ?cl c = LEAF_OUT, d1, v1)"
      and sb1: "same_bounds (m_data t) d1" and r1: "relabelled t d d1"
      and g1: "\<forall>c\<in>set ?cs. ?good c d1"
      by auto
    have ty: "?ty = (if \<forall>c\<in>set ?cs. ?cl c = LEAF_IN then LEAF_IN
        else if \<forall>c\<in>set ?cs. ?cl c = LEAF_OUT then LEAF_OUT else NODE)"
      using False by (simp add: combine_def case_prod_unfold)
    let ?d' = "set_type d1 L ?pos ?ty"
    note df1 = tree_ok_defined[OF ok L(1) c sb1]
    have r: "checkChildren t L x y z (d, v) = Some (?ty, ?d', v1)"
      unfolding checkChildren_children Let_def
      using df(1,4,5) False L(2,3) f ty by simp
    have sb: "same_bounds (m_data t) ?d'" using same_bounds_set_type[OF sb1] .
    have rl1: "relabelled t d1 ?d'" using relabelled_set_type[OF Suc.prems(1) c df1(2,3)] .
    have rl: "relabelled t d ?d'" using relabelled_trans[OF r1 rl1] .
    have g: "?good c ?d'" if "c \<in> set ?cs" for c
      using classified_relabelled[OF ok rl1 _ cr[OF that], of k] g1 that Suc.prems(1) by simp
    have la: "label_at t ?d' L x y z = ?ty"
      by (simp add: label_at_set_type[OF df1(2,3)])
    have cl: "classified t ?d' (Suc k) L x y z"
      unfolding classified.simps using la g by blast
    show ?thesis using r sb rl cl by blast
  qed
qed

lemma tree_ok_update [simp]:
  "tree_ok w h s (t\<lparr>m_min := lo\<rparr>) = tree_ok w h s t"
  "tree_ok w h s (t\<lparr>m_max := hi\<rparr>) = tree_ok w h s t"
  "tree_ok w h s (t\<lparr>m_voxelsInside := vi\<rparr>) = tree_ok w h s t"
  "tree_ok w h s (t\<lparr>m_cubesInside := cs\<rparr>) = tree_ok w h s t"
  by (simp_all add: tree_ok_def)

lemma same_bounds_refl: "same_bounds d d"
  by (simp add: same_bounds_def)

lemma child_labels:
  assumes ok: "tree_ok w h s t" and L: "L + k + 2 = m_numLayers t" and c: "cell_defined t L x y z"
  shows "list_all2 (\<lambda>c l. \<forall>d v. same_bounds (m_data t) d \<longrightarrow>
            (\<exists>d' v'. checkChildren t (L + 1) (fst c) (fst (snd c)) (snd (snd c)) (d, v) = Some (l, d', v')))
          (children t L x y z)
          (map (\<lambda>(cx, cy, cz). classify t k (L + 1) cx cy cz) (children t L x y z))"
proof -
  have L1: "L + 1 < m_numLayers t" "L + 1 + k + 1 = m_numLayers t" using L by simp_all
  have "\<exists>d' v'. checkChildren t (L + 1) (fst c) (fst (snd c)) (snd (snd c)) (d, v)
        = Some (classify t k (L + 1) (fst c) (fst (snd c)) (snd (snd c)), d', v')"
    if m: "c \<in> set (children t L x y z)" and sb: "same_bounds (m_data t) d" for c d v
  proof -
    have cd: "cell_defined t (L + 1) (fst c) (fst (snd c)) (snd (snd c))"
      using children_in_range[OF ok L1(1) c, of "fst c" "fst (snd c)" "snd (snd c)"] m by simp
    from checkChildren_classify[OF ok L1(2) cd sb, of v] show ?thesis by blast
  qed
  then show ?thesis
    by (simp add: list_all2_map2 list_all2_same case_prod_unfold)
qed

lemma tree2_filled_ok: "tree_ok 2 1 1 tree2_filled"
proof -
  have s: "setImage (UShortImage volume2) (\<lambda>k. False) (Octree_new 1 0) = Some tree2_filled"
    unfolding tree2_filled_def by code_simp
  have u: "isUsable tree2_filled" by (simp add: isUsable_def tree2_filled_def)
  have d: "0 < image_width (UShortImage volume2)" "0 < image_height (UShortImage volume2)"
    "0 < image_slices (UShortImage volume2)" by (simp_all add: volume2_def)
  have v: "voxels_of (UShortImage volume2) = Some (voxel volume2)" by (simp add: voxels_of_def)
  have m: "(1::int) \<le> 1" by simp
  from setImage_filled(1)[OF d m v s u] show ?thesis by (simp add: volume2_def)
qed

lemma element_at_update [simp]:
  "element_at (t\<lparr>m_min := lo\<rparr>) = element_at t"
  "element_at (t\<lparr>m_max := hi\<rparr>) = element_at t"
  "element_at (t\<lparr>m_voxelsInside := vi\<rparr>) = element_at t"
  "element_at (t\<lparr>m_cubesInside := cs\<rparr>) = element_at t"
  by (simp_all add: element_at_def fun_eq_iff)

lemma summarised_update [simp]:
  "summarised val (t\<lparr>m_min := lo\<rparr>) = summarised val t"
  "summarised val (t\<lparr>m_max := hi\<rparr>) = summarised val t"
  "summarised val (t\<lparr>m_voxelsInside := vi\<rparr>) = summarised val t"
  "summarised val (t\<lparr>m_cubesInside := cs\<rparr>) = summarised val t"
  by (simp_all add: summarised_def fun_eq_iff)





lemma check_children_labels:
  assumes IH: "\<And>c d v. c \<in> set cs \<Longrightarrow> same_bounds (m_data t) d \<Longrightarrow>
      \<exists>d' v'. checkChildren t L (fst c) (fst (snd c)) (snd (snd c)) (d, v) = Some (cl c, d', v')
        \<and> same_bounds (m_data t) d'
        \<and> (\<forall>p. inside p \<longrightarrow> lab d' p = (if vis c p then cls p else lab d p))"
    and sb: "same_bounds (m_data t) d"
  shows "\<exists>d' v'. fold (check_step t L) cs (Some (aI, aO, d, v)) =
        Some (aI \<and> (\<forall>c\<in>set cs. cl c = LEAF_IN), aO \<and> (\<forall>c\<in>set cs. cl c = LEAF_OUT), d', v')
      \<and> same_bounds (m_data t) d'
      \<and> (\<forall>p. inside p \<longrightarrow> lab d' p = (if \<exists>c\<in>set cs. vis c p then cls p else lab d p))"
  using IH sb
proof (induction cs arbitrary: aI aO d v)
  case Nil
  then show ?case by simp
next
  case (Cons c cs)
  from Cons.prems(1)[of c d v] Cons.prems(2) obtain d1 v1 where
    c1: "checkChildren t L (fst c) (fst (snd c)) (snd (snd c)) (d, v) = Some (cl c, d1, v1)"
    and sb1: "same_bounds (m_data t) d1"
    and l1: "\<forall>p. inside p \<longrightarrow> lab d1 p = (if vis c p then cls p else lab d p)"
    by auto
  let ?aI = "aI \<and> cl c = LEAF_IN" and ?aO = "aO \<and> cl c = LEAF_OUT"
  have st: "check_step t L c (Some (aI, aO, d, v)) = Some (?aI, ?aO, d1, v1)"
    using c1 by (simp add: check_step_def)
  have "\<exists>d' v'. fold (check_step t L) cs (Some (?aI, ?aO, d1, v1)) =
        Some (?aI \<and> (\<forall>c\<in>set cs. cl c = LEAF_IN), ?aO \<and> (\<forall>c\<in>set cs. cl c = LEAF_OUT), d', v')
      \<and> same_bounds (m_data t) d'
      \<and> (\<forall>p. inside p \<longrightarrow> lab d' p = (if \<exists>c\<in>set cs. vis c p then cls p else lab d1 p))"
  proof (rule Cons.IH)
    show "\<And>c' d v. c' \<in> set cs \<Longrightarrow> same_bounds (m_data t) d \<Longrightarrow>
      \<exists>d' v'. checkChildren t L (fst c') (fst (snd c')) (snd (snd c')) (d, v) = Some (cl c', d', v')
        \<and> same_bounds (m_data t) d'
        \<and> (\<forall>p. inside p \<longrightarrow> lab d' p = (if vis c' p then cls p else lab d p))"
      using Cons.prems(1) by simp
    show "same_bounds (m_data t) d1" by fact
  qed
  then obtain d' v' where
    f: "fold (check_step t L) cs (Some (?aI, ?aO, d1, v1)) =
        Some (?aI \<and> (\<forall>c\<in>set cs. cl c = LEAF_IN), ?aO \<and> (\<forall>c\<in>set cs. cl c = LEAF_OUT), d', v')"
    and sb': "same_bounds (m_data t) d'"
    and l': "\<forall>p. inside p \<longrightarrow> lab d' p = (if \<exists>c\<in>set cs. vis c p then cls p else lab d1 p)"
    by blast
  have fl: "fold (check_step t L) (c # cs) (Some (aI, aO, d, v)) =
      Some (aI \<and> (\<forall>c\<in>set (c # cs). cl c = LEAF_IN), aO \<and> (\<forall>c\<in>set (c # cs). cl c = LEAF_OUT), d', v')"
    using st f by (simp add: conj_assoc)
  have ll: "\<forall>p. inside p \<longrightarrow> lab d' p = (if \<exists>c\<in>set (c # cs). vis c p then cls p else lab d p)"
    using l1 l' by auto
  show ?case using fl sb' ll by blast
qed

lemma label_at_set_type_cell:
  assumes "L < length d"
    and "x + length (m_gridX t ! L) * (y + length (m_gridY t ! L) * z) < length (d ! L)"
    and "cell_defined t L x y z" and "cell_defined t l a b c"
  shows "label_at t (set_type d L (x + length (m_gridX t ! L) * (y + length (m_gridY t ! L) * z)) ty)
           l a b c
       = (if (l, a, b, c) = (L, x, y, z) then ty else label_at t d l a b c)"
proof (cases "l = L")
  case True
  show ?thesis
    using cell_index_inj[OF assms(4)[unfolded True] assms(3)] True
    by (auto simp: label_at_set_type[OF assms(1,2)])
next
  case False
  then show ?thesis by (simp add: label_at_set_type[OF assms(1,2)])
qed

lemma checkChildren_labels_after:
  assumes ok: "tree_ok w h s t"
  shows "L + k + 1 = m_numLayers t \<Longrightarrow> cell_defined t L x y z \<Longrightarrow> same_bounds (m_data t) d \<Longrightarrow>
     \<exists>d' v'. checkChildren t L x y z (d, v) = Some (classify t k L x y z, d', v')
        \<and> same_bounds (m_data t) d' \<and> labels_after t d k L x y z d'"
proof (induction k arbitrary: L x y z d v)
  case 0
  let ?pos = "x + length (m_gridX t ! L) * (y + length (m_gridY t ! L) * z)"
  have L: "L < m_numLayers t" "L + 1 = m_numLayers t" "m_numLayers t - 1 - L = 0" using 0(1) by simp_all
  note df = tree_ok_defined[OF ok L(1) 0(2,3)]
  let ?ty = "classify t 0 L x y z"
  let ?d' = "set_type d L ?pos ?ty"
  have r: "\<exists>v'. checkChildren t L x y z (d, v) = Some (?ty, ?d', v')"
    unfolding checkChildren_children Let_def using df(1,4) L(2) 0(2) by simp
  have sb: "same_bounds (m_data t) ?d'" using same_bounds_set_type[OF 0(3)] .
  have la: "labels_after t d 0 L x y z ?d'"
    unfolding labels_after_def
    using label_at_set_type_cell[OF df(2,3) 0(2)] L(3) by auto
  show ?case using r sb la by blast
next
  case (Suc k)
  let ?pos = "x + length (m_gridX t ! L) * (y + length (m_gridY t ! L) * z)"
  have L: "L < m_numLayers t" "L + 1 < m_numLayers t" "L + 1 \<noteq> m_numLayers t"
    "m_numLayers t - 1 - L = Suc k"
    using Suc.prems(1) by simp_all
  note c = Suc.prems(2)
  note df = tree_ok_defined[OF ok L(1) c Suc.prems(3)]
  let ?ty = "classify t (Suc k) L x y z"
  show ?case
  proof (cases "rejected t (element_at t L x y z)")
    case True
    let ?d' = "set_type d L ?pos ?ty"
    have r: "checkChildren t L x y z (d, v) = Some (?ty, ?d', v)"
      unfolding checkChildren_children Let_def using df(1,4) True by simp
    have sb: "same_bounds (m_data t) ?d'" using same_bounds_set_type[OF Suc.prems(3)] .
    have la: "labels_after t d (Suc k) L x y z ?d'"
      unfolding labels_after_def
      using label_at_set_type_cell[OF df(2,3) c] L(4) True by auto
    show ?thesis using r sb la by blast
  next
    case False
    let ?cs = "children t L x y z"
    let ?cl = "\<lambda>c. classify t k (L + 1) (fst c) (fst (snd c)) (snd (snd c))"
    let ?inside = "\<lambda>p. fst p < m_numLayers t \<and> cell_defined t (fst p) (fst (snd p)) (fst (snd (snd p))) (snd (snd (snd p)))"
    let ?lab = "\<lambda>d p. label_at t d (fst p) (fst (snd p)) (fst (snd (snd p))) (snd (snd (snd p)))"
    let ?vis = "\<lambda>c p. visited t k (L + 1) (fst c) (fst (snd c)) (snd (snd c)) p"
    let ?cls = "\<lambda>p. classify t (m_numLayers t - 1 - fst p) (fst p) (fst (snd p)) (fst (snd (snd p))) (snd (snd (snd p)))"
    have cr: "cell_defined t (L + 1) (fst c) (fst (snd c)) (snd (snd c))" if "c \<in> set ?cs" for c
      using children_in_range[OF ok L(2) c, of "fst c" "fst (snd c)" "snd (snd c)"] that by simp
    have "\<exists>d' v'. fold (check_step t (L + 1)) ?cs (Some (True, True, d, v)) =
        Some (True \<and> (\<forall>c\<in>set ?cs. ?cl c = LEAF_IN), True \<and> (\<forall>c\<in>set ?cs. ?cl c = LEAF_OUT), d', v')
      \<and> same_bounds (m_data t) d'
      \<and> (\<forall>p. ?inside p \<longrightarrow> ?lab d' p = (if \<exists>c\<in>set ?cs. ?vis c p then ?cls p else ?lab d p))"
    proof (rule check_children_labels)
      fix c d v assume m: "c \<in> set ?cs" and sb: "same_bounds (m_data t) d"
      have k1: "L + 1 + k + 1 = m_numLayers t" using Suc.prems(1) by simp
      from Suc.IH[OF k1 cr[OF m] sb, of v] obtain d' v' where
        r: "checkChildren t (L + 1) (fst c) (fst (snd c)) (snd (snd c)) (d, v) = Some (?cl c, d', v')"
        and sb': "same_bounds (m_data t) d'"
        and la: "labels_after t d k (L + 1) (fst c) (fst (snd c)) (snd (snd c)) d'" by blast
      have "\<forall>p. ?inside p \<longrightarrow> ?lab d' p = (if ?vis c p then ?cls p else ?lab d p)"
        using la unfolding labels_after_def by (simp add: split_paired_all)
      with r sb' show "\<exists>d' v'. checkChildren t (L + 1) (fst c) (fst (snd c)) (snd (snd c)) (d, v)
            = Some (?cl c, d', v') \<and> same_bounds (m_data t) d'
          \<and> (\<forall>p. ?inside p \<longrightarrow> ?lab d' p = (if ?vis c p then ?cls p else ?lab d p))"
        by blast
    next
      show "same_bounds (m_data t) d" by fact
    qed
    then obtain d1 v1 where
      f: "fold (check_step t (L + 1)) ?cs (Some (True, True, d, v)) =
        Some (\<forall>c\<in>set ?cs. ?cl c = LEAF_IN, \<forall>c\<in>set ?cs. ?cl c = LEAF_OUT, d1, v1)"
      and sb1: "same_bounds (m_data t) d1"
      and l1: "\<forall>p. ?inside p \<longrightarrow> ?lab d1 p = (if \<exists>c\<in>set ?cs. ?vis c p then ?cls p else ?lab d p)"
      by auto
    have ty: "?ty = (if \<forall>c\<in>set ?cs. ?cl c = LEAF_IN then LEAF_IN
        else if \<forall>c\<in>set ?cs. ?cl c = LEAF_OUT then LEAF_OUT else NODE)"
      using False by (simp add: combine_def case_prod_unfold)
    let ?d' = "set_type d1 L ?pos ?ty"
    note df1 = tree_ok_defined[OF ok L(1) c sb1]
    have r: "checkChildren t L x y z (d, v) = Some (?ty, ?d', v1)"
      unfolding checkChildren_children Let_def
      using df(1,4,5) False L(2,3) f ty by simp
    have sb: "same_bounds (m_data t) ?d'" using same_bounds_set_type[OF sb1] .
    have la: "labels_after t d (Suc k) L x y z ?d'"
      unfolding labels_after_def
    proof (intro allI impI)
      fix l a b c assume i: "l < m_numLayers t \<and> cell_defined t l a b c"
      show "label_at t ?d' l a b c =
          (if visited t (Suc k) L x y z (l, a, b, c)
           then classify t (m_numLayers t - 1 - l) l a b c else label_at t d l a b c)"
      proof (cases "(l, a, b, c) = (L, x, y, z)")
        case True
        then show ?thesis
          using label_at_set_type_cell[OF df1(2,3) c, of l a b c] i L(4) by simp
      next
        case ne: False
        have "label_at t ?d' l a b c = label_at t d1 l a b c"
          using label_at_set_type_cell[OF df1(2,3) c, of l a b c ?ty] i ne
          by (auto simp del: classify.simps)
        also have "\<dots> = (if \<exists>ch\<in>set ?cs. ?vis ch (l, a, b, c)
            then classify t (m_numLayers t - 1 - l) l a b c else label_at t d l a b c)"
          using l1 i by simp
        also have "(\<exists>ch\<in>set ?cs. ?vis ch (l, a, b, c)) \<longleftrightarrow> visited t (Suc k) L x y z (l, a, b, c)"
          using ne False by auto
        finally show ?thesis .
      qed
    qed
    show ?thesis using r sb la by blast
  qed
qed

lemma same_bounds_common:
  assumes "same_bounds d0 d" and "same_bounds d0 d'"
  shows "same_bounds d d'"
  using assms unfolding same_bounds_def by auto

text \<open>
  Claim C7.  Classification of a node of a laid out tree with the range \<open>[m_min, m_max]\<close>,
  from any state of the element arrays that has the tree's bounds.  A node whose stored
  bounds satisfy \<open>m_min > max\<close> or \<open>m_max < min\<close> is labelled \<open>LEAF_OUT\<close>, and nothing
  but this label changes: no child is visited.  A node not so rejected at the finest layer is
  labelled \<open>LEAF_IN\<close> (and its voxels are counted).  Every other node is labelled with the
  combination of the labels that \<open>checkChildren\<close> returns for its children: \<open>LEAF_IN\<close>
  if all are \<open>LEAF_IN\<close>, \<open>LEAF_OUT\<close> if all are \<open>LEAF_OUT\<close>, \<open>NODE\<close> otherwise; the
  label is returned and stored in the node, and every child keeps the label returned for it.
  In all three cases the arrays after the call are the arrays before it with new labels for
  the visited nodes only: the node, and the nodes visited from the children of a node that is
  neither rejected nor at the finest layer; each of them carries the label that the three
  rules give it (\<open>classify\<close>).
\<close>

theorem checkChildren_labels:
  assumes ok: "tree_ok w h s t" and L: "layer < m_numLayers t"
    and c: "cell_defined t layer px py pz" and sb: "same_bounds (m_data t) data"
  shows
    "let pos = px + length (m_gridX t ! layer) * (py + length (m_gridY t ! layer) * pz);
         element = data ! layer ! pos;
         k = m_numLayers t - 1 - layer
     in
       (m_min t > max_e element \<or> m_max t < min_e element \<longrightarrow>
          checkChildren t layer px py pz (data, vi) =
            Some (LEAF_OUT, set_type data layer pos LEAF_OUT, vi)) \<and>
       (\<not> (m_min t > max_e element \<or> m_max t < min_e element) \<and> layer + 1 = m_numLayers t \<longrightarrow>
          checkChildren t layer px py pz (data, vi) =
            Some (LEAF_IN, set_type data layer pos LEAF_IN,
              wrap32 (vi + m_gridX t ! layer ! px * m_gridY t ! layer ! py * m_gridZ t ! layer ! pz))) \<and>
       (\<not> (m_min t > max_e element \<or> m_max t < min_e element) \<and> layer + 1 \<noteq> m_numLayers t \<longrightarrow>
          (\<exists>labels data' vi'.
             list_all2 (\<lambda>c l. \<forall>d v. same_bounds (m_data t) d \<longrightarrow>
                 (\<exists>d' v'. checkChildren t (layer + 1) (fst c) (fst (snd c)) (snd (snd c)) (d, v)
                    = Some (l, d', v')))
               (children t layer px py pz) labels \<and>
             checkChildren t layer px py pz (data, vi) = Some (combine labels, data', vi') \<and>
             type_e (data' ! layer ! pos) = combine labels \<and>
             list_all2 (\<lambda>c l. label_at t data' (layer + 1) (fst c) (fst (snd c)) (snd (snd c)) = l)
               (children t layer px py pz) labels)) \<and>
       (\<exists>data' vi'.
          checkChildren t layer px py pz (data, vi) = Some (classify t k layer px py pz, data', vi') \<and>
          same_bounds data data' \<and>
          (\<forall>l a b c. l < m_numLayers t \<and> cell_defined t l a b c \<longrightarrow>
             label_at t data' l a b c =
               (if visited t k layer px py pz (l, a, b, c)
                then classify t (m_numLayers t - 1 - l) l a b c
                else label_at t data l a b c)))"
proof -
  let ?pos = "px + length (m_gridX t ! layer) * (py + length (m_gridY t ! layer) * pz)"
  let ?e = "data ! layer ! ?pos"
  let ?k = "m_numLayers t - 1 - layer"
  note df = tree_ok_defined[OF ok L c sb]
  have k0: "layer + ?k + 1 = m_numLayers t" using L by simp
  have r: "rejected t ?e \<longleftrightarrow> m_min t > max_e ?e \<or> m_max t < min_e ?e"
    by (simp add: rejected_def)
  from checkChildren_labels_after[OF ok k0 c sb, of vi] obtain d' v' where
    res: "checkChildren t layer px py pz (data, vi) = Some (classify t ?k layer px py pz, d', v')"
    and sb': "same_bounds (m_data t) d'"
    and la: "labels_after t data ?k layer px py pz d'" by blast
  have all: "\<forall>l a b c. l < m_numLayers t \<and> cell_defined t l a b c \<longrightarrow>
             label_at t d' l a b c =
               (if visited t ?k layer px py pz (l, a, b, c)
                then classify t (m_numLayers t - 1 - l) l a b c
                else label_at t data l a b c)"
    using la unfolding labels_after_def .
  have a: "checkChildren t layer px py pz (data, vi) =
      Some (LEAF_OUT, set_type data layer ?pos LEAF_OUT, vi)"
    if "m_min t > max_e ?e \<or> m_max t < min_e ?e"
    unfolding checkChildren_children Let_def using df(1,4) r that by simp
  have b: "checkChildren t layer px py pz (data, vi) =
      Some (LEAF_IN, set_type data layer ?pos LEAF_IN,
        wrap32 (vi + m_gridX t ! layer ! px * m_gridY t ! layer ! py * m_gridZ t ! layer ! pz))"
    if "\<not> (m_min t > max_e ?e \<or> m_max t < min_e ?e)" "layer + 1 = m_numLayers t"
    unfolding checkChildren_children Let_def using df(1,4) r that c by simp
  have d: "\<exists>labels data' vi'.
       list_all2 (\<lambda>c l. \<forall>d v. same_bounds (m_data t) d \<longrightarrow>
           (\<exists>d' v'. checkChildren t (layer + 1) (fst c) (fst (snd c)) (snd (snd c)) (d, v)
              = Some (l, d', v')))
         (children t layer px py pz) labels \<and>
       checkChildren t layer px py pz (data, vi) = Some (combine labels, data', vi') \<and>
       type_e (data' ! layer ! ?pos) = combine labels \<and>
       list_all2 (\<lambda>c l. label_at t data' (layer + 1) (fst c) (fst (snd c)) (snd (snd c)) = l)
         (children t layer px py pz) labels"
    if nr: "\<not> (m_min t > max_e ?e \<or> m_max t < min_e ?e)" and nl: "layer + 1 \<noteq> m_numLayers t"
  proof -
    obtain k where k: "?k = Suc k" using L nl by (cases ?k) auto
    have k2: "layer + k + 2 = m_numLayers t" "layer + 1 < m_numLayers t"
      "m_numLayers t - 1 - (layer + 1) = k" using k by simp_all
    have nrj: "\<not> rejected t (element_at t layer px py pz)" using nr r df(4) by simp
    let ?labels = "map (\<lambda>(cx, cy, cz). classify t k (layer + 1) cx cy cz) (children t layer px py pz)"
    have ty: "classify t ?k layer px py pz = combine ?labels"
      unfolding k using nrj by simp
    have node: "visited t ?k layer px py pz (layer, px, py, pz)" unfolding k by simp
    have st: "type_e (d' ! layer ! ?pos) = combine ?labels"
      using all L c node ty by (simp add: label_at_def)
    have ch: "label_at t d' (layer + 1) (fst ch) (fst (snd ch)) (snd (snd ch))
        = classify t k (layer + 1) (fst ch) (fst (snd ch)) (snd (snd ch))"
      if m: "ch \<in> set (children t layer px py pz)" for ch
    proof -
      have cd: "cell_defined t (layer + 1) (fst ch) (fst (snd ch)) (snd (snd ch))"
        using children_in_range[OF ok k2(2) c, of "fst ch" "fst (snd ch)" "snd (snd ch)"] m by simp
      have "visited t k (layer + 1) (fst ch) (fst (snd ch)) (snd (snd ch))
          (layer + 1, fst ch, fst (snd ch), snd (snd ch))"
        by (cases k) simp_all
      then have "visited t ?k layer px py pz (layer + 1, fst ch, fst (snd ch), snd (snd ch))"
        unfolding k using nrj m by auto
      with all cd k2(2,3) show ?thesis by simp
    qed
    have l2: "list_all2 (\<lambda>c l. label_at t d' (layer + 1) (fst c) (fst (snd c)) (snd (snd c)) = l)
         (children t layer px py pz) ?labels"
      using ch by (simp add: list_all2_map2 list_all2_same case_prod_unfold)
    show ?thesis using child_labels[OF ok k2(1) c] res st l2 unfolding ty by blast
  qed
  have e: "\<exists>data' vi'.
          checkChildren t layer px py pz (data, vi) = Some (classify t ?k layer px py pz, data', vi') \<and>
          same_bounds data data' \<and>
          (\<forall>l a b c. l < m_numLayers t \<and> cell_defined t l a b c \<longrightarrow>
             label_at t data' l a b c =
               (if visited t ?k layer px py pz (l, a, b, c)
                then classify t (m_numLayers t - 1 - l) l a b c
                else label_at t data l a b c))"
    using res same_bounds_common[OF sb sb'] all by blast
  show ?thesis unfolding Let_def using a b d e by blast
qed

theorem checkChildren_labels_witness:
  "tree_ok 2 1 1 (tree2_filled\<lparr>m_min := 0, m_max := 50\<rparr>)
   \<and> checkChildren (tree2_filled\<lparr>m_min := 0, m_max := 50\<rparr>) 1 1 0 0 (m_data tree2_filled, 0) =
       Some (LEAF_OUT, set_type (m_data tree2_filled) 1 1 LEAF_OUT, 0)
   \<and> checkChildren (tree2_filled\<lparr>m_min := 0, m_max := 50\<rparr>) 1 0 0 0 (m_data tree2_filled, 0) =
       Some (LEAF_IN, set_type (m_data tree2_filled) 1 0 LEAF_IN, 1)
   \<and> (\<exists>data' vi'.
         checkChildren (tree2_filled\<lparr>m_min := 0, m_max := 50\<rparr>) 0 0 0 0 (m_data tree2_filled, 0)
           = Some (NODE, data', vi') \<and>
         same_bounds (m_data tree2_filled) data' \<and>
         label_at tree2_filled data' 0 0 0 0 = NODE \<and>
         label_at tree2_filled data' 1 0 0 0 = LEAF_IN \<and>
         label_at tree2_filled data' 1 1 0 0 = LEAF_OUT)"
proof -
  let ?t = "tree2_filled\<lparr>m_min := 0, m_max := 50\<rparr>"
  have ok: "tree_ok 2 1 1 ?t" using tree2_filled_ok by simp
  have sb: "same_bounds (m_data ?t) (m_data tree2_filled)" by (simp add: same_bounds_refl)
  have L: "0 < m_numLayers ?t" "1 < m_numLayers ?t" by (simp_all add: tree2_filled_def)
  have c: "cell_defined ?t 0 0 0 0" "cell_defined ?t 1 0 0 0" "cell_defined ?t 1 1 0 0"
    by (simp_all add: cell_defined_def tree2_filled_def)
  have e: "m_data tree2_filled ! 0 ! 0 = \<lparr>min_e = 0, max_e = 100, type_e = NODE\<rparr>"
    by (simp add: tree2_filled_def)
  have n: "m_numLayers tree2_filled = 2" by (simp add: tree2_filled_def)
  have w: "wrap32 1 = 1" by (simp add: wrap32_def)
  have a: "checkChildren ?t 1 1 0 0 (m_data tree2_filled, 0) =
       Some (LEAF_OUT, set_type (m_data tree2_filled) 1 1 LEAF_OUT, 0)"
    using checkChildren_labels[OF ok L(2) c(3) sb, of 0]
    by (simp add: tree2_filled_def Let_def)
  have b: "checkChildren ?t 1 0 0 0 (m_data tree2_filled, 0) =
       Some (LEAF_IN, set_type (m_data tree2_filled) 1 0 LEAF_IN, 1)"
    using checkChildren_labels[OF ok L(2) c(2) sb, of 0]
    by (simp add: tree2_filled_def Let_def w)
  have ch: "children ?t 0 0 0 0 = [(0, 0, 0), (1, 0, 0)]"
    unfolding tree2_filled_def by code_simp
  have r0: "\<not> rejected ?t (element_at ?t 0 0 0 0)"
    by (simp add: rejected_def element_at_def tree2_filled_def)
  have cl: "classify ?t 0 1 0 0 0 = LEAF_IN" "classify ?t 0 1 1 0 0 = LEAF_OUT"
    by (simp_all add: rejected_def element_at_def tree2_filled_def)
  have cr: "classify ?t 1 0 0 0 0 = NODE"
    using r0 cl ch by (simp add: numeral_2_eq_2 combine_def)
  have v: "visited ?t 1 0 0 0 0 (0, 0, 0, 0)" "visited ?t 1 0 0 0 0 (1, 0, 0, 0)"
    "visited ?t 1 0 0 0 0 (1, 1, 0, 0)"
    using r0 ch by simp_all
  note th = checkChildren_labels[OF ok L(1) c(1) sb, of 0, unfolded Let_def]
  have k: "m_numLayers ?t - 1 - 0 = 1" by (simp add: n)
  from th[THEN conjunct2, THEN conjunct2, THEN conjunct2, unfolded k] obtain data' vi' where
    res: "checkChildren ?t 0 0 0 0 (m_data tree2_filled, 0) = Some (classify ?t 1 0 0 0 0, data', vi')"
    and sb': "same_bounds (m_data tree2_filled) data'"
    and all: "\<forall>l a b c. l < m_numLayers ?t \<and> cell_defined ?t l a b c \<longrightarrow>
             label_at ?t data' l a b c =
               (if visited ?t 1 0 0 0 0 (l, a, b, c)
                then classify ?t (m_numLayers ?t - 1 - l) l a b c
                else label_at ?t (m_data tree2_filled) l a b c)"
    by blast
  have la: "label_at ?t data' l a b c = label_at tree2_filled data' l a b c" for l a b c
    by (simp add: label_at_def)
  have l0: "label_at tree2_filled data' 0 0 0 0 = NODE"
    using all[rule_format, of 0 0 0 0] c(1) v(1) cr L by (simp add: la n del: visited.simps classify.simps)
  have l1: "label_at tree2_filled data' 1 0 0 0 = LEAF_IN"
    using all[rule_format, of 1 0 0 0] c(2) v(2) cl(1) L by (simp add: la n del: visited.simps classify.simps)
  have l2: "label_at tree2_filled data' 1 1 0 0 = LEAF_OUT"
    using all[rule_format, of 1 1 0 0] c(3) v(3) cl(2) L by (simp add: la n del: visited.simps classify.simps)
  show ?thesis using ok a b res[unfolded cr] sb' l0 l1 l2 by blast
qed




section \<open>Enumeration\<close>















lemma element_defined_update [simp]:
  "element_defined (t\<lparr>m_data := d\<rparr>) = element_defined t"
  "element_defined (t\<lparr>m_voxelsInside := vi\<rparr>) = element_defined t"
  by (simp_all add: element_defined_def fun_eq_iff)

lemma getSplit_defined_update [simp]:
  "getSplit_defined (t\<lparr>m_data := d\<rparr>) = getSplit_defined t"
  "getSplit_defined (t\<lparr>m_voxelsInside := vi\<rparr>) = getSplit_defined t"
  by (simp_all add: getSplit_defined_def fun_eq_iff)

lemma cell_box_update [simp]:
  "cell_box (t\<lparr>m_data := d\<rparr>) = cell_box t"
  "cell_box (t\<lparr>m_voxelsInside := vi\<rparr>) = cell_box t"
  by (simp_all add: cell_box_def fun_eq_iff)












end
